theory Spec2Isabelle
  imports Main
begin

section \<open>The Redis keyspace used by TaggedCache\<close>

text \<open>
  TaggedCache keeps everything in one Redis database: the cached values under the
  caller's keys, and four kinds of index collections under the names
  \<^verbatim>\<open>CacheKeys\<close>, \<^verbatim>\<open>Tags\<close>, \<^verbatim>\<open>tags-by-key:<key>\<close> and \<^verbatim>\<open>keys-by-tag:<tag>\<close>.
  A Redis key holds either a string or a set of strings, with an optional time to live.
  A set is kept as a list; its order stands for the order in which \<^verbatim>\<open>smembers\<close> hands the
  members to a Python \<^verbatim>\<open>for\<close> loop. A command applied to a key of the other type fails with
  WRONGTYPE and changes nothing.

  Time is not part of the model. \<^verbatim>\<open>expire\<close> with a positive time to live records it
  with the entry; the expiry itself happens on the store's side, without TaggedCache being
  told, and is the deletion of the entry (\<open>r_delete\<close>) between two calls.
\<close>

datatype rval = Str string | SetV "string list"

type_synonym entry = "rval \<times> int option"

type_synonym redis = "string \<rightharpoonup> entry"

datatype rerror = WrongType | InvalidExpire

subsection \<open>Commands sent directly\<close>

definition r_get :: "redis \<Rightarrow> string \<Rightarrow> rerror + string option" where
  "r_get s k =
     (case s k of
        None \<Rightarrow> Inr None
      | Some (Str v, _) \<Rightarrow> Inr (Some v)
      | Some (SetV _, _) \<Rightarrow> Inl WrongType)"

definition r_exists :: "redis \<Rightarrow> string \<Rightarrow> bool" where
  "r_exists s k = (s k \<noteq> None)"

definition r_smembers :: "redis \<Rightarrow> string \<Rightarrow> rerror + string list" where
  "r_smembers s k =
     (case s k of
        None \<Rightarrow> Inr []
      | Some (SetV ms, _) \<Rightarrow> Inr ms
      | Some (Str _, _) \<Rightarrow> Inl WrongType)"

definition r_scard :: "redis \<Rightarrow> string \<Rightarrow> rerror + nat" where
  "r_scard s k =
     (case s k of
        None \<Rightarrow> Inr 0
      | Some (SetV ms, _) \<Rightarrow> Inr (length ms)
      | Some (Str _, _) \<Rightarrow> Inl WrongType)"

definition r_delete :: "redis \<Rightarrow> string \<Rightarrow> redis" where
  "r_delete s k = s(k := None)"

subsection \<open>Commands queued in a pipeline\<close>

datatype cmd =
    SAdd string string
  | SRem string string
  | SetStr string string
  | Expire string int
  | Delete string

text \<open>
  One queued command on the keyspace. \<open>Inl\<close> is the error reply; the keyspace is then as it
  was. Removing the last member of a set removes the key, as Redis does.

  \<^verbatim>\<open>EXPIRE\<close> takes its seconds as a signed 64-bit number of milliseconds: a time to live
  beyond \<open>9223372036854775\<close> seconds either way is an error reply, whether the key is there
  or not. A time to live that is not positive has already run out, and the key is deleted
  at once. The model has no clock, and so leaves out one case: a server also rejects the
  few largest values, for which adding its own time overflows. The properties that depend
  on a time to live being kept take it from \<open>0\<close> to \<open>2147483647\<close> seconds, far from that
  edge.
\<close>

fun exec_cmd :: "cmd \<Rightarrow> redis \<Rightarrow> rerror + redis" where
  "exec_cmd (SAdd k m) s =
     (case s k of
        None \<Rightarrow> Inr (s(k \<mapsto> (SetV [m], None)))
      | Some (SetV ms, t) \<Rightarrow> Inr (s(k \<mapsto> (SetV (if m \<in> set ms then ms else ms @ [m]), t)))
      | Some (Str _, _) \<Rightarrow> Inl WrongType)"
| "exec_cmd (SRem k m) s =
     (case s k of
        None \<Rightarrow> Inr s
      | Some (SetV ms, t) \<Rightarrow>
          Inr (if removeAll m ms = [] then s(k := None) else s(k \<mapsto> (SetV (removeAll m ms), t)))
      | Some (Str _, _) \<Rightarrow> Inl WrongType)"
| "exec_cmd (SetStr k v) s = Inr (s(k \<mapsto> (Str v, None)))"
| "exec_cmd (Expire k n) s =
     (if n < - 9223372036854775 \<or> 9223372036854775 < n then Inl InvalidExpire
      else (case s k of
              None \<Rightarrow> Inr s
            | Some (v, _) \<Rightarrow> if n \<le> 0 then Inr (s(k := None)) else Inr (s(k \<mapsto> (v, Some n)))))"
| "exec_cmd (Delete k) s = Inr (s(k := None))"

text \<open>
  \<^verbatim>\<open>p.execute()\<close>: every queued command runs, in order, also after one of them failed; the
  first error reply is then raised.
\<close>

fun execute :: "cmd list \<Rightarrow> redis \<Rightarrow> redis \<times> rerror option" where
  "execute [] s = (s, None)"
| "execute (c # cs) s =
     (case exec_cmd c s of
        Inl e \<Rightarrow> (fst (execute cs s), Some e)
      | Inr s1 \<Rightarrow> execute cs s1)"

fun finish :: "redis \<times> rerror option \<Rightarrow> redis \<times> (rerror + unit)" where
  "finish (s, None) = (s, Inr ())"
| "finish (s, Some e) = (s, Inl e)"

section \<open>TaggedCache\<close>

definition tbk :: "string \<Rightarrow> string" where
  "tbk key = ''tags-by-key:'' @ key"

definition kbt :: "string \<Rightarrow> string" where
  "kbt tag = ''keys-by-tag:'' @ tag"

subsection \<open>set\<close>

text \<open>
  \<^verbatim>\<open>
  def set(self, key, value, tags=[], ttl=None):
      p = self.redis.pipeline()
      for tag in tags:
          p.sadd("tags-by-key:%s" % key, tag)
          p.sadd("keys-by-tag:%s" % tag, key)
          p.sadd("Tags", tag)
      p.sadd("CacheKeys", key)
      p.set(key, value)
      if ttl:
          p.expire(key, ttl)
      p.execute()
  \<close>
  \<open>set_tags\<close> is the loop over the tags. A time to live of \<open>None\<close> or \<open>0\<close> is falsy and
  queues no \<^verbatim>\<open>expire\<close>.
\<close>

fun set_tags :: "string \<Rightarrow> string list \<Rightarrow> cmd list" where
  "set_tags key [] = []"
| "set_tags key (tag # tags) =
     SAdd (tbk key) tag # SAdd (kbt tag) key # SAdd ''Tags'' tag # set_tags key tags"

definition set_cache ::
  "redis \<Rightarrow> string \<Rightarrow> string \<Rightarrow> string list \<Rightarrow> int option \<Rightarrow> redis \<times> (rerror + unit)" where
  "set_cache s key val tags ttl =
     finish (execute
       (set_tags key tags @ [SAdd ''CacheKeys'' key, SetStr key val] @
        (case ttl of None \<Rightarrow> [] | Some n \<Rightarrow> if n = 0 then [] else [Expire key n])) s)"

subsection \<open>gc\<close>

text \<open>
  \<^verbatim>\<open>
  def gc(self, keys=None, tags=None):
      keys = keys or []
      tags = tags or []
      if not keys:
          keys = self.redis.smembers("CacheKeys")
      if not tags:
          tags = self.redis.smembers("Tags")
      p = self.redis.pipeline()
      for key in keys:
          exists = self.redis.exists(key)
          if not exists:
              p.srem("CacheKeys", key)
              for tag in self.redis.smembers("tags-by-key:%s" % key):
                  p.srem("keys-by-tag:%s" % tag, key)
              p.delete("tags-by-key:%s" % key)
      for tag in tags:
          num_keys = self.redis.scard("keys-by-tag:%s" % tag)
          if num_keys == 0:
              p.srem("Tags", tag)
              p.delete("keys-by-tag:%s" % tag)
      p.execute()
  \<close>
  \<open>gc_keys\<close> and \<open>gc_tags\<close> are the two loops. They read the keyspace as it is when gc
  starts, since nothing queued has run yet, and return the commands they queue; a read
  that fails raises, and then nothing is executed.
\<close>

fun gc_keys :: "redis \<Rightarrow> string list \<Rightarrow> rerror + cmd list" where
  "gc_keys s [] = Inr []"
| "gc_keys s (key # keys) =
     (if r_exists s key then gc_keys s keys
      else (case r_smembers s (tbk key) of
              Inl e \<Rightarrow> Inl e
            | Inr ts \<Rightarrow>
                (case gc_keys s keys of
                   Inl e \<Rightarrow> Inl e
                 | Inr cs \<Rightarrow>
                     Inr (SRem ''CacheKeys'' key # map (\<lambda>tag. SRem (kbt tag) key) ts
                          @ Delete (tbk key) # cs))))"

fun gc_tags :: "redis \<Rightarrow> string list \<Rightarrow> rerror + cmd list" where
  "gc_tags s [] = Inr []"
| "gc_tags s (tag # tags) =
     (case r_scard s (kbt tag) of
        Inl e \<Rightarrow> Inl e
      | Inr num_keys \<Rightarrow>
          (case gc_tags s tags of
             Inl e \<Rightarrow> Inl e
           | Inr cs \<Rightarrow>
               Inr (if num_keys = 0 then SRem ''Tags'' tag # Delete (kbt tag) # cs else cs)))"

definition gc ::
  "redis \<Rightarrow> string list option \<Rightarrow> string list option \<Rightarrow> redis \<times> (rerror + unit)" where
  "gc s keys tags =
     (let keys0 = (case keys of None \<Rightarrow> [] | Some ks \<Rightarrow> ks);
          tags0 = (case tags of None \<Rightarrow> [] | Some ts \<Rightarrow> ts)
      in case (if keys0 = [] then r_smembers s ''CacheKeys'' else Inr keys0) of
           Inl e \<Rightarrow> (s, Inl e)
         | Inr keys1 \<Rightarrow>
             (case (if tags0 = [] then r_smembers s ''Tags'' else Inr tags0) of
                Inl e \<Rightarrow> (s, Inl e)
              | Inr tags1 \<Rightarrow>
                  (case gc_keys s keys1 of
                     Inl e \<Rightarrow> (s, Inl e)
                   | Inr kc \<Rightarrow>
                       (case gc_tags s tags1 of
                          Inl e \<Rightarrow> (s, Inl e)
                        | Inr tc \<Rightarrow> finish (execute (kc @ tc) s)))))"

subsection \<open>get, get_tags, get_keys\<close>

text \<open>
  \<^verbatim>\<open>
  def get(self, key, gc=True):
      value = self.redis.get(key)
      if value is None and gc:
          self.gc([key])
      return value
  \<close>
  \<open>get_tags\<close> and \<open>get_keys\<close> return the \<^verbatim>\<open>smembers\<close> of the tag set of a key and of the
  key set of a tag.
\<close>

definition get :: "redis \<Rightarrow> string \<Rightarrow> bool \<Rightarrow> redis \<times> (rerror + string option)" where
  "get s key gc_on =
     (case r_get s key of
        Inl e \<Rightarrow> (s, Inl e)
      | Inr val \<Rightarrow>
          if val = None \<and> gc_on
          then (case gc s (Some [key]) None of
                  (s1, Inl e) \<Rightarrow> (s1, Inl e)
                | (s1, Inr _) \<Rightarrow> (s1, Inr val))
          else (s, Inr val))"

definition get_tags :: "redis \<Rightarrow> string \<Rightarrow> rerror + string list" where
  "get_tags s key = r_smembers s (tbk key)"

definition get_keys :: "redis \<Rightarrow> string \<Rightarrow> rerror + string list" where
  "get_keys s tag = r_smembers s (kbt tag)"

subsection \<open>clear, clear_tag, clear_all\<close>

text \<open>
  \<^verbatim>\<open>
  def clear(self, key):
      self.redis.delete(key)
      self.gc([key])

  def clear_tag(self, tag):
      p = self.redis.pipeline()
      deleted_keys = set()
      for key in self.redis.smembers("keys-by-tag:%s" % tag):
          p.delete(key)
          deleted_keys.add(key)
      p.delete("keys-by-tag:%s" % tag)
      p.execute()
      self.gc(deleted_keys)

  def clear_all(self):
      p = self.redis.pipeline()
      for key in self.redis.smembers("CacheKeys"):
          p.delete(key)
          p.delete("tags-by-key:%s" % key)
      for tag in self.redis.smembers("Tags"):
          p.delete("keys-by-tag:%s" % tag)
      p.delete("CacheKeys")
      p.delete("Tags")
      p.execute()
  \<close>
  \<open>clear_tag_loop\<close> returns the queued deletions and the set \<^verbatim>\<open>deleted_keys\<close>, kept as a
  list without duplicates.
\<close>

definition clear :: "redis \<Rightarrow> string \<Rightarrow> redis \<times> (rerror + unit)" where
  "clear s key = gc (r_delete s key) (Some [key]) None"

fun clear_tag_loop :: "string list \<Rightarrow> cmd list \<times> string list" where
  "clear_tag_loop [] = ([], [])"
| "clear_tag_loop (key # keys) =
     (case clear_tag_loop keys of
        (cs, deleted_keys) \<Rightarrow> (Delete key # cs, List.insert key deleted_keys))"

definition clear_tag :: "redis \<Rightarrow> string \<Rightarrow> redis \<times> (rerror + unit)" where
  "clear_tag s tag =
     (case r_smembers s (kbt tag) of
        Inl e \<Rightarrow> (s, Inl e)
      | Inr ks \<Rightarrow>
          (case clear_tag_loop ks of
             (cs, deleted_keys) \<Rightarrow>
               (case execute (cs @ [Delete (kbt tag)]) s of
                  (s1, Some e) \<Rightarrow> (s1, Inl e)
                | (s1, None) \<Rightarrow> gc s1 (Some deleted_keys) None)))"

fun clear_all_keys :: "string list \<Rightarrow> cmd list" where
  "clear_all_keys [] = []"
| "clear_all_keys (key # keys) = Delete key # Delete (tbk key) # clear_all_keys keys"

fun clear_all_tags :: "string list \<Rightarrow> cmd list" where
  "clear_all_tags [] = []"
| "clear_all_tags (tag # tags) = Delete (kbt tag) # clear_all_tags tags"

definition clear_all :: "redis \<Rightarrow> redis \<times> (rerror + unit)" where
  "clear_all s =
     (case r_smembers s ''CacheKeys'' of
        Inl e \<Rightarrow> (s, Inl e)
      | Inr keys \<Rightarrow>
          (case r_smembers s ''Tags'' of
             Inl e \<Rightarrow> (s, Inl e)
           | Inr tags \<Rightarrow>
               finish (execute
                 (clear_all_keys keys @ clear_all_tags tags
                  @ [Delete ''CacheKeys'', Delete ''Tags'']) s)))"

section \<open>Notions used to state the properties\<close>

text \<open>The keyspace after one queued command, whether it failed or not.\<close>

definition step :: "cmd \<Rightarrow> redis \<Rightarrow> redis" where
  "step c s = (case exec_cmd c s of Inl _ \<Rightarrow> s | Inr s1 \<Rightarrow> s1)"

text \<open>The key a command works on.\<close>

fun target :: "cmd \<Rightarrow> string" where
  "target (SAdd k m) = k"
| "target (SRem k m) = k"
| "target (SetStr k v) = k"
| "target (Expire k n) = k"
| "target (Delete k) = k"

fun removal :: "cmd \<Rightarrow> bool" where
  "removal (SRem k m) = True"
| "removal (Delete k) = True"
| "removal c = False"

fun is_sadd :: "cmd \<Rightarrow> bool" where
  "is_sadd (SAdd k m) = True"
| "is_sadd c = False"

text \<open>The members of the set under a name; nothing when the name holds no set.\<close>

definition smembers_of :: "redis \<Rightarrow> string \<Rightarrow> string list" where
  "smembers_of s x = (case s x of Some (SetV ms, _) \<Rightarrow> ms | _ \<Rightarrow> [])"

text \<open>
  What is left of an entry when the members failing \<open>P\<close> are removed from it: a set that
  loses its last member is gone, a string is not touched.
\<close>

definition keep :: "(string \<Rightarrow> bool) \<Rightarrow> entry option \<Rightarrow> entry option" where
  "keep P e =
     (case e of
        Some (SetV ms, t) \<Rightarrow> if filter P ms = [] then None else Some (SetV (filter P ms), t)
      | _ \<Rightarrow> e)"

text \<open>The names TaggedCache uses for its index collections.\<close>

definition index_name :: "string \<Rightarrow> bool" where
  "index_name x \<longleftrightarrow>
     x = ''CacheKeys'' \<or> x = ''Tags'' \<or> take 12 x = ''tags-by-key:'' \<or> take 12 x = ''keys-by-tag:''"

text \<open>
  A keyspace as Redis and TaggedCache leave it: no set is empty (Redis removes a set with
  its last member), and no index name holds a string.
\<close>

definition redis_ok :: "redis \<Rightarrow> bool" where
  "redis_ok s \<longleftrightarrow>
     (\<forall>x ms t. s x = Some (SetV ms, t) \<longrightarrow> ms \<noteq> []) \<and>
     (\<forall>x v t. s x = Some (Str v, t) \<longrightarrow> \<not> index_name x)"

text \<open>
  Every name in use is reachable from the two root sets: it is a root set, a key listed in
  \<^verbatim>\<open>CacheKeys\<close> or its tag set, or the key set of a tag listed in \<^verbatim>\<open>Tags\<close>.
\<close>

definition covered :: "redis \<Rightarrow> bool" where
  "covered s \<longleftrightarrow>
     (\<forall>x. s x \<noteq> None \<longrightarrow>
        x = ''CacheKeys'' \<or> x = ''Tags'' \<or>
        (\<exists>k \<in> set (smembers_of s ''CacheKeys''). x = k \<or> x = tbk k) \<or>
        (\<exists>t \<in> set (smembers_of s ''Tags''). x = kbt t))"

text \<open>A sequence of \<open>set\<close> calls, each with its key, value, tags and time to live.\<close>

fun set_many :: "redis \<Rightarrow> (string \<times> string \<times> string list \<times> int option) list \<Rightarrow> redis" where
  "set_many s [] = s"
| "set_many s ((key, val, tags, ttl) # calls) =
     set_many (fst (set_cache s key val tags ttl)) calls"

text \<open>
  A keyspace with a live key and an expired one: \<open>live\<close> has tag \<open>a\<close>; \<open>gone\<close> had tags
  \<open>a\<close> and \<open>b\<close> and its value has expired; tag \<open>c\<close> has no key set left.
\<close>

definition sweep_example :: redis where
  "sweep_example =
     Map.empty(''live'' \<mapsto> (Str ''v'', None),
               ''CacheKeys'' \<mapsto> (SetV [''live'', ''gone''], None),
               ''Tags'' \<mapsto> (SetV [''a'', ''b'', ''c''], None),
               ''tags-by-key:live'' \<mapsto> (SetV [''a''], None),
               ''tags-by-key:gone'' \<mapsto> (SetV [''a'', ''b''], None),
               ''keys-by-tag:a'' \<mapsto> (SetV [''live'', ''gone''], None),
               ''keys-by-tag:b'' \<mapsto> (SetV [''gone''], None))"

text \<open>
  The keyspace left when a key with one tag \<open>t\<close> was set, expired, and was swept: the tag
  is still listed in \<^verbatim>\<open>Tags\<close>, and nothing else is there.
\<close>

definition dead_tag_example :: redis where
  "dead_tag_example = Map.empty(''Tags'' \<mapsto> (SetV [''t''], None))"

text \<open>The keyspace after one \<open>set\<close> of key \<open>k\<close> with the one tag \<open>t\<close> on an empty store.\<close>

definition one_key_example :: redis where
  "one_key_example = fst (set_cache Map.empty ''k'' ''v'' [''t''] None)"

text \<open>
  A time to live that leaves the entry in place: none, \<open>0\<close> (falsy in Python, so that no
  \<^verbatim>\<open>expire\<close> is queued), or a number of seconds up to \<open>2147483647\<close>.
\<close>

definition ttl_plain :: "int option \<Rightarrow> bool" where
  "ttl_plain ttl = (case ttl of None \<Rightarrow> True | Some n \<Rightarrow> 0 \<le> n \<and> n \<le> 2147483647)"

text \<open>The commands one \<open>set\<close> call queues, in order.\<close>

definition set_cmds :: "string \<Rightarrow> string \<Rightarrow> string list \<Rightarrow> int option \<Rightarrow> cmd list" where
  "set_cmds key val tags ttl =
     set_tags key tags @ [SAdd ''CacheKeys'' key, SetStr key val] @
        (case ttl of None \<Rightarrow> [] | Some n \<Rightarrow> if n = 0 then [] else [Expire key n])"

text \<open>
  The keyspace of \<open>sweep_example\<close> after \<open>set\<close> of \<^verbatim>\<open>P1\<close> and of \<^verbatim>\<open>P2\<close>, both with tag
  \<^verbatim>\<open>Post\<close>.
\<close>

definition posts_example :: redis where
  "posts_example =
     fst (set_cache (fst (set_cache sweep_example ''P1'' ''x'' [''Post''] None))
            ''P2'' ''y'' [''Post''] None)"

section \<open>Facts about names, commands and pipelines\<close>

lemma tbk_inj [simp]: "tbk a = tbk b \<longleftrightarrow> a = b" by (simp add: tbk_def)
lemma kbt_inj [simp]: "kbt a = kbt b \<longleftrightarrow> a = b" by (simp add: kbt_def)
lemma tbk_neq [simp]:
  "tbk a \<noteq> kbt b" "kbt b \<noteq> tbk a"
  "tbk a \<noteq> ''CacheKeys''" "tbk a \<noteq> ''Tags''" "''CacheKeys'' \<noteq> tbk a" "''Tags'' \<noteq> tbk a"
  by (simp_all add: tbk_def kbt_def)
lemma kbt_neq [simp]:
  "kbt a \<noteq> ''CacheKeys''" "kbt a \<noteq> ''Tags''" "''CacheKeys'' \<noteq> kbt a" "''Tags'' \<noteq> kbt a"
  by (simp_all add: kbt_def)
lemma tbk_self [simp]: "tbk a \<noteq> a" "a \<noteq> tbk a"
  by (auto simp: tbk_def dest: arg_cong [where f = length])
lemma kbt_self [simp]: "kbt a \<noteq> a" "a \<noteq> kbt a"
  by (auto simp: kbt_def dest: arg_cong [where f = length])
lemma index_name_simps [simp]:
  "index_name (tbk a)" "index_name (kbt a)" "index_name ''CacheKeys''" "index_name ''Tags''"
  by (simp_all add: index_name_def tbk_def kbt_def)

lemma index_name_cases:
  assumes "index_name x"
  obtains "x = ''CacheKeys''" | "x = ''Tags''" | k where "x = tbk k" | t where "x = kbt t"
proof -
  have "take 12 x = p \<Longrightarrow> x = p @ drop 12 x" for p
    by (metis append_take_drop_id)
  with assms that show ?thesis
    unfolding index_name_def tbk_def kbt_def by blast
qed

lemma fst_execute: "fst (execute cs s) = fold step cs s"
  by (induction cs arbitrary: s) (auto simp: step_def split: sum.splits)

lemma fst_finish [simp]: "fst (finish p) = fst p"
  by (cases p rule: finish.cases) auto

lemma snd_finish [simp]: "snd (finish p) = Inr () \<longleftrightarrow> snd p = None"
  by (cases p rule: finish.cases) auto

lemma step_other: "target c \<noteq> x \<Longrightarrow> step c s x = s x"
  by (cases c) (auto simp: step_def split: option.splits rval.splits prod.splits)

lemma fold_step_other: "\<forall>c \<in> set cs. target c \<noteq> x \<Longrightarrow> fold step cs s x = s x"
  by (induction cs arbitrary: s) (auto simp: step_other)

lemma step_SRem:
  "step (SRem y m) s x = (if x = y then keep (\<lambda>a. m \<noteq> a) (s x) else s x)"
  by (auto simp: step_def keep_def removeAll_filter_not_eq split: option.splits rval.splits prod.splits)

lemma step_Delete: "step (Delete y) s x = (if x = y then None else s x)"
  by (auto simp: step_def)

lemma keep_keep: "keep P (keep Q e) = keep (\<lambda>a. P a \<and> Q a) e"
  by (auto simp: keep_def filter_empty_conv conj_commute split: option.splits rval.splits prod.splits)

lemma keep_None [simp]: "keep P None = None" by (simp add: keep_def)

lemma keep_nonempty: "keep P e \<noteq> Some (SetV [], t)"
  by (auto simp: keep_def split: option.splits rval.splits prod.splits)

lemma keep_True: "\<forall>t. e \<noteq> Some (SetV [], t) \<Longrightarrow> (\<And>a. P a) \<Longrightarrow> keep P e = e"
  by (auto simp: keep_def split: option.splits rval.splits prod.splits)

lemma step_removal_nonempty:
  "removal c \<Longrightarrow> \<forall>t. s x \<noteq> Some (SetV [], t) \<Longrightarrow> step c s x \<noteq> Some (SetV [], t)"
  by (cases c) (auto simp: step_SRem step_Delete keep_nonempty)

lemma fold_removals:
  "\<forall>c \<in> set cs. removal c \<Longrightarrow> \<forall>t. s x \<noteq> Some (SetV [], t) \<Longrightarrow>
   fold step cs s x =
     (if Delete x \<in> set cs then None else keep (\<lambda>m. SRem x m \<notin> set cs) (s x))"
proof (induction cs arbitrary: s)
  case Nil
  then show ?case by (simp add: keep_True)
next
  case (Cons c cs)
  then have r: "removal c" and rs: "\<forall>c \<in> set cs. removal c" by simp_all
  have ne: "\<forall>t. step c s x \<noteq> Some (SetV [], t)"
    using step_removal_nonempty [of c s x] r Cons.prems(2) by blast
  have IH: "fold step cs (step c s) x =
     (if Delete x \<in> set cs then None else keep (\<lambda>m. SRem x m \<notin> set cs) (step c s x))"
    using Cons.IH [of "step c s"] rs ne by blast
  show ?case
  proof (cases c)
    case (SRem y m)
    then show ?thesis using IH
      by (auto simp: step_SRem keep_keep intro!: arg_cong2 [where f = keep])
  next
    case (Delete y)
    then show ?thesis using IH
      by (auto simp: step_Delete)
  qed (use r in auto)
qed


lemma r_smembers_Inr: "r_smembers s x = Inr ms \<Longrightarrow> smembers_of s x = ms"
  by (auto simp: r_smembers_def smembers_of_def split: option.splits rval.splits prod.splits)

lemma r_smembers_not_Str: "r_smembers s x = Inr ms \<Longrightarrow> s x \<noteq> Some (Str v, t)"
  by (auto simp: r_smembers_def split: option.splits rval.splits prod.splits)

lemma r_scard_Inr: "r_scard s x = Inr n \<Longrightarrow> n = length (smembers_of s x)"
  by (auto simp: r_scard_def smembers_of_def split: option.splits rval.splits prod.splits)

lemma r_scard_not_Str: "r_scard s x = Inr n \<Longrightarrow> s x \<noteq> Some (Str v, t)"
  by (auto simp: r_scard_def split: option.splits rval.splits prod.splits)

lemma redis_ok_smembers: "redis_ok s \<Longrightarrow> index_name x \<Longrightarrow> r_smembers s x = Inr (smembers_of s x)"
  by (auto simp: redis_ok_def r_smembers_def smembers_of_def split: option.splits rval.splits prod.splits)

lemma redis_ok_scard: "redis_ok s \<Longrightarrow> index_name x \<Longrightarrow> r_scard s x = Inr (length (smembers_of s x))"
  by (auto simp: redis_ok_def r_scard_def smembers_of_def split: option.splits rval.splits prod.splits)

lemma redis_ok_empty_iff: "redis_ok s \<Longrightarrow> index_name x \<Longrightarrow> smembers_of s x = [] \<longleftrightarrow> s x = None"
  by (auto simp: redis_ok_def smembers_of_def split: option.splits rval.splits prod.splits)

lemma not_Some_pair [simp]: "(\<forall>a b. e \<noteq> Some (a, b)) \<longleftrightarrow> e = None"
  by (cases e) auto

lemma r_exists_iff: "r_exists s k \<longleftrightarrow> \<not> (s k = None)"
  by (simp add: r_exists_def)

lemma gc_keys_removal: "gc_keys s ks = Inr kc \<Longrightarrow> c \<in> set kc \<Longrightarrow> removal c"
  by (induction ks arbitrary: kc) (auto split: if_splits sum.splits)

lemma gc_keys_Delete:
  "gc_keys s ks = Inr kc \<Longrightarrow>
   Delete x \<in> set kc \<longleftrightarrow> (\<exists>k \<in> set ks. s k = None \<and> x = tbk k)"
  by (induction ks arbitrary: kc) (auto simp: r_exists_iff split: if_splits sum.splits)

lemma gc_keys_SRem:
  "gc_keys s ks = Inr kc \<Longrightarrow>
   SRem x m \<in> set kc \<longleftrightarrow>
     (m \<in> set ks \<and> s m = None \<and>
      (x = ''CacheKeys'' \<or> (\<exists>t \<in> set (smembers_of s (tbk m)). x = kbt t)))"
  by (induction ks arbitrary: kc)
     (auto simp: r_exists_iff dest!: r_smembers_Inr split: if_splits sum.splits)

lemma gc_keys_readable:
  "gc_keys s ks = Inr kc \<Longrightarrow> k \<in> set ks \<Longrightarrow> s k = None \<Longrightarrow> \<exists>ts. r_smembers s (tbk k) = Inr ts"
  by (induction ks arbitrary: kc) (auto simp: r_exists_iff split: if_splits sum.splits)

lemma gc_keys_ok: "redis_ok s \<Longrightarrow> \<exists>kc. gc_keys s ks = Inr kc"
  by (induction ks) (auto simp: redis_ok_smembers)

lemma gc_tags_removal: "gc_tags s ts = Inr tc \<Longrightarrow> c \<in> set tc \<Longrightarrow> removal c"
  by (induction ts arbitrary: tc) (auto split: if_splits sum.splits)

lemma gc_tags_Delete:
  "gc_tags s ts = Inr tc \<Longrightarrow>
   Delete x \<in> set tc \<longleftrightarrow> (\<exists>t \<in> set ts. smembers_of s (kbt t) = [] \<and> x = kbt t)"
  by (induction ts arbitrary: tc) (auto dest!: r_scard_Inr split: if_splits sum.splits)

lemma gc_tags_SRem:
  "gc_tags s ts = Inr tc \<Longrightarrow>
   SRem x m \<in> set tc \<longleftrightarrow> (x = ''Tags'' \<and> m \<in> set ts \<and> smembers_of s (kbt m) = [])"
  by (induction ts arbitrary: tc) (auto dest!: r_scard_Inr split: if_splits sum.splits)

lemma gc_tags_readable:
  "gc_tags s ts = Inr tc \<Longrightarrow> t \<in> set ts \<Longrightarrow> \<exists>n. r_scard s (kbt t) = Inr n"
  by (induction ts arbitrary: tc) (auto split: if_splits sum.splits)

lemma gc_tags_ok: "redis_ok s \<Longrightarrow> \<exists>tc. gc_tags s ts = Inr tc"
  by (induction ts) (auto simp: redis_ok_scard)


lemma r_smembers_error: "r_smembers s x = Inl e \<Longrightarrow> e = WrongType"
  by (auto simp: r_smembers_def split: option.splits rval.splits prod.splits)

lemma r_scard_error: "r_scard s x = Inl e \<Longrightarrow> e = WrongType"
  by (auto simp: r_scard_def split: option.splits rval.splits prod.splits)

lemma gc_keys_error: "gc_keys s ks = Inl e \<Longrightarrow> e = WrongType"
  by (induction ks) (auto dest: r_smembers_error split: if_splits sum.splits)

lemma gc_tags_error: "gc_tags s ts = Inl e \<Longrightarrow> e = WrongType"
  by (induction ts) (auto dest: r_scard_error split: if_splits sum.splits)

lemma keep_Str [simp]: "keep P (Some (Str v, t)) = Some (Str v, t)"
  by (simp add: keep_def)

text \<open>
  gc either stops at a failing read, the keyspace untouched, or runs one pipeline of
  removals.
\<close>

lemma gc_cases:
  obtains (stopped) "gc s keys tags = (s, Inl WrongType)"
  | (ran) ks ts kc tc where
      "gc_keys s ks = Inr kc" "gc_tags s ts = Inr tc"
      "gc s keys tags = finish (execute (kc @ tc) s)"
      "ks = (if keys = None \<or> keys = Some [] then smembers_of s ''CacheKeys'' else the keys)"
      "ts = (if tags = None \<or> tags = Some [] then smembers_of s ''Tags'' else the tags)"
      "keys = None \<or> keys = Some [] \<Longrightarrow> r_smembers s ''CacheKeys'' = Inr ks"
      "tags = None \<or> tags = Some [] \<Longrightarrow> r_smembers s ''Tags'' = Inr ts"
proof -
  let ?keys0 = "case keys of None \<Rightarrow> [] | Some ks \<Rightarrow> ks"
  let ?tags0 = "case tags of None \<Rightarrow> [] | Some ts \<Rightarrow> ts"
  let ?k = "if ?keys0 = [] then r_smembers s ''CacheKeys'' else Inr ?keys0"
  let ?t = "if ?tags0 = [] then r_smembers s ''Tags'' else Inr ?tags0"
  show thesis
  proof (cases ?k)
    case (Inl e)
    then have "e = WrongType" by (auto dest: r_smembers_error split: if_splits)
    with Inl have "gc s keys tags = (s, Inl WrongType)" by (simp add: gc_def)
    then show ?thesis by (rule stopped)
  next
    case k: (Inr ks)
    show ?thesis
    proof (cases ?t)
      case (Inl e)
      then have "e = WrongType" by (auto dest: r_smembers_error split: if_splits)
      with Inl have "gc s keys tags = (s, Inl WrongType)" using k by (simp add: gc_def)
      then show ?thesis by (rule stopped)
    next
      case t: (Inr ts)
      show ?thesis
      proof (cases "gc_keys s ks")
        case (Inl e)
        then have "e = WrongType" by (rule gc_keys_error)
        with Inl have "gc s keys tags = (s, Inl WrongType)" using k t by (simp add: gc_def)
        then show ?thesis by (rule stopped)
      next
        case kc: (Inr kc)
        show ?thesis
        proof (cases "gc_tags s ts")
          case (Inl e)
          then have "e = WrongType" by (rule gc_tags_error)
          with Inl have "gc s keys tags = (s, Inl WrongType)" using k t kc by (simp add: gc_def)
          then show ?thesis by (rule stopped)
        next
          case tc: (Inr tc)
          have g: "gc s keys tags = finish (execute (kc @ tc) s)"
            using k t kc tc by (simp add: gc_def)
          have ks: "ks = (if keys = None \<or> keys = Some [] then smembers_of s ''CacheKeys'' else the keys)"
            using k by (auto dest: r_smembers_Inr split: option.splits if_splits)
          have ts: "ts = (if tags = None \<or> tags = Some [] then smembers_of s ''Tags'' else the tags)"
            using t by (auto dest: r_smembers_Inr split: option.splits if_splits)
          have rk: "keys = None \<or> keys = Some [] \<Longrightarrow> r_smembers s ''CacheKeys'' = Inr ks"
            using k by (auto split: option.splits if_splits)
          have rt: "tags = None \<or> tags = Some [] \<Longrightarrow> r_smembers s ''Tags'' = Inr ts"
            using t by (auto split: option.splits if_splits)
          show ?thesis by (rule ran [OF kc tc g ks ts rk rt])
        qed
      qed
    qed
  qed
qed

lemma gc_cmds_removal:
  "gc_keys s ks = Inr kc \<Longrightarrow> gc_tags s ts = Inr tc \<Longrightarrow> \<forall>c \<in> set (kc @ tc). removal c"
  by (auto dest: gc_keys_removal gc_tags_removal)

lemma gc_cmds_Delete_not_Str:
  assumes "gc_keys s ks = Inr kc" "gc_tags s ts = Inr tc" "Delete x \<in> set (kc @ tc)"
  shows "s x \<noteq> Some (Str v, t)"
proof -
  from assms(3) consider "Delete x \<in> set kc" | "Delete x \<in> set tc" by auto
  then show ?thesis
  proof cases
    case 1
    then obtain k where "k \<in> set ks" "s k = None" "x = tbk k"
      using gc_keys_Delete [OF assms(1)] by blast
    then show ?thesis
      using gc_keys_readable [OF assms(1)] r_smembers_not_Str by blast
  next
    case 2
    then obtain t' where "t' \<in> set ts" "x = kbt t'"
      using gc_tags_Delete [OF assms(2)] by blast
    then show ?thesis
      using gc_tags_readable [OF assms(2)] r_scard_not_Str by blast
  qed
qed

lemma smembers_of_step_SRem:
  "smembers_of (step (SRem y m) s) x =
     (if x = y then filter (\<lambda>a. m \<noteq> a) (smembers_of s x) else smembers_of s x)"
  by (auto simp: smembers_of_def step_SRem keep_def split: option.splits rval.splits prod.splits)

lemma smembers_of_step_Delete:
  "smembers_of (step (Delete y) s) x = (if x = y then [] else smembers_of s x)"
  by (auto simp: smembers_of_def step_Delete)

lemma smembers_of_removals:
  "\<forall>c \<in> set cs. removal c \<Longrightarrow>
   smembers_of (fold step cs s) x =
     (if Delete x \<in> set cs then [] else filter (\<lambda>m. SRem x m \<notin> set cs) (smembers_of s x))"
proof (induction cs arbitrary: s)
  case Nil
  show ?case by simp
next
  case (Cons c cs)
  then have r: "removal c" and rs: "\<forall>c \<in> set cs. removal c" by simp_all
  note IH = Cons.IH [OF rs, of "step c s"]
  show ?case
  proof (cases c)
    case (SRem y m)
    then show ?thesis using IH
      by (auto simp: smembers_of_step_SRem intro!: filter_cong)
  next
    case (Delete y)
    then show ?thesis using IH
      by (auto simp: smembers_of_step_Delete)
  qed (use r in auto)
qed

lemma gc_keys_target:
  "gc_keys s ks = Inr kc \<Longrightarrow> c \<in> set kc \<Longrightarrow>
   target c = ''CacheKeys'' \<or> (\<exists>t. target c = kbt t) \<or>
   (\<exists>k \<in> set ks. s k = None \<and> target c = tbk k)"
  by (induction ks arbitrary: kc) (auto simp: r_exists_iff split: if_splits sum.splits)

lemma gc_tags_target:
  "gc_tags s ts = Inr tc \<Longrightarrow> c \<in> set tc \<Longrightarrow>
   target c = ''Tags'' \<or> (\<exists>t. target c = kbt t)"
  by (induction ts arbitrary: tc) (auto split: if_splits sum.splits)

lemma gc_cmds_index:
  assumes "gc_keys s ks = Inr kc" "gc_tags s ts = Inr tc" "c \<in> set (kc @ tc)"
  shows "index_name (target c)"
  using gc_keys_target [OF assms(1), of c] gc_tags_target [OF assms(2), of c] assms(3)
  by auto

lemma redis_ok_step_removal: "redis_ok s \<Longrightarrow> removal c \<Longrightarrow> redis_ok (step c s)"
proof (cases c)
  case (SRem y m)
  assume "redis_ok s"
  then show ?thesis unfolding redis_ok_def SRem
    by (auto simp: step_SRem keep_def split: option.splits rval.splits prod.splits if_splits)
next
  case (Delete y)
  assume "redis_ok s"
  then show ?thesis unfolding redis_ok_def Delete
    by (auto simp: step_Delete split: if_splits)
qed auto

lemma redis_ok_fold_removals:
  "redis_ok s \<Longrightarrow> \<forall>c \<in> set cs. removal c \<Longrightarrow> redis_ok (fold step cs s)"
  by (induction cs arbitrary: s) (auto simp: redis_ok_step_removal)

lemma exec_removal_ok:
  "redis_ok s \<Longrightarrow> removal c \<Longrightarrow> index_name (target c) \<Longrightarrow> exec_cmd c s = Inr (step c s)"
  by (cases c) (auto simp: step_def redis_ok_def split: option.splits rval.splits prod.splits)

lemma execute_removals_ok:
  "redis_ok s \<Longrightarrow> \<forall>c \<in> set cs. removal c \<and> index_name (target c) \<Longrightarrow>
   snd (execute cs s) = None"
proof (induction cs arbitrary: s)
  case Nil
  show ?case by simp
next
  case (Cons c cs)
  then have e: "exec_cmd c s = Inr (step c s)" by (simp add: exec_removal_ok)
  have "redis_ok (step c s)" using Cons.prems by (simp add: redis_ok_step_removal)
  then show ?case using Cons e by simp
qed

lemma redis_ok_nonempty: "redis_ok s \<Longrightarrow> s x \<noteq> Some (SetV [], t)"
  by (auto simp: redis_ok_def)

text \<open>On a well-formed keyspace gc reads without error and runs its pipeline without error.\<close>

lemma gc_ok_ran:
  assumes "redis_ok s"
  obtains ks ts kc tc where
      "gc_keys s ks = Inr kc" "gc_tags s ts = Inr tc"
      "gc s keys tags = (fold step (kc @ tc) s, Inr ())"
      "ks = (if keys = None \<or> keys = Some [] then smembers_of s ''CacheKeys'' else the keys)"
      "ts = (if tags = None \<or> tags = Some [] then smembers_of s ''Tags'' else the tags)"
proof -
  let ?ks = "if keys = None \<or> keys = Some [] then smembers_of s ''CacheKeys'' else the keys"
  let ?ts = "if tags = None \<or> tags = Some [] then smembers_of s ''Tags'' else the tags"
  obtain kc where kc: "gc_keys s ?ks = Inr kc" using gc_keys_ok [OF assms] by blast
  obtain tc where tc: "gc_tags s ?ts = Inr tc" using gc_tags_ok [OF assms] by blast
  have k: "(if (case keys of None \<Rightarrow> [] | Some ks \<Rightarrow> ks) = [] then r_smembers s ''CacheKeys''
            else Inr (case keys of None \<Rightarrow> [] | Some ks \<Rightarrow> ks)) = Inr ?ks"
    using redis_ok_smembers [OF assms, of "''CacheKeys''"] by (auto split: option.splits)
  have t: "(if (case tags of None \<Rightarrow> [] | Some ks \<Rightarrow> ks) = [] then r_smembers s ''Tags''
            else Inr (case tags of None \<Rightarrow> [] | Some ks \<Rightarrow> ks)) = Inr ?ts"
    using redis_ok_smembers [OF assms, of "''Tags''"] by (auto split: option.splits)
  have g: "gc s keys tags = finish (execute (kc @ tc) s)"
    unfolding gc_def Let_def k t using kc tc by simp
  have ok: "snd (execute (kc @ tc) s) = None"
    using execute_removals_ok [OF assms, of "kc @ tc"]
      gc_cmds_removal [OF kc tc] gc_cmds_index [OF kc tc] by blast
  have "finish (execute (kc @ tc) s) = (fold step (kc @ tc) s, Inr ())"
    using ok fst_execute [of "kc @ tc" s] by (cases "execute (kc @ tc) s") auto
  with g have "gc s keys tags = (fold step (kc @ tc) s, Inr ())" by simp
  from that [OF kc tc this] show thesis by simp
qed

lemma redis_ok_gc: "redis_ok s \<Longrightarrow> redis_ok (fst (gc s keys tags))"
proof -
  assume ok: "redis_ok s"
  from gc_ok_ran [OF ok, of keys tags] obtain ks ts kc tc where
    r: "gc_keys s ks = Inr kc" "gc_tags s ts = Inr tc"
       "gc s keys tags = (fold step (kc @ tc) s, Inr ())" by metis
  show ?thesis using redis_ok_fold_removals [OF ok gc_cmds_removal [OF r(1,2)]] r(3) by simp
qed


lemma smembers_of_keep: "smembers_of (f(x := keep P e)) x = filter P (smembers_of (f(x := e)) x)"
  by (auto simp: smembers_of_def keep_def split: option.splits rval.splits prod.splits)

text \<open>The keyspace after a sweep over the keys \<open>ks\<close> and the tags \<open>ts\<close>, name by name.\<close>

lemma sweep_CacheKeys:
  assumes "gc_keys s ks = Inr kc" "gc_tags s ts = Inr tc" "redis_ok s"
  shows "fold step (kc @ tc) s ''CacheKeys'' =
           keep (\<lambda>m. \<not> (m \<in> set ks \<and> s m = None)) (s ''CacheKeys'')"
proof -
  have d: "Delete ''CacheKeys'' \<notin> set (kc @ tc)"
    using gc_keys_Delete [OF assms(1)] gc_tags_Delete [OF assms(2)] by auto
  have r: "SRem ''CacheKeys'' m \<notin> set (kc @ tc) \<longleftrightarrow> \<not> (m \<in> set ks \<and> s m = None)" for m
    using gc_keys_SRem [OF assms(1)] gc_tags_SRem [OF assms(2)] by auto
  show ?thesis
    using fold_removals [OF gc_cmds_removal [OF assms(1,2)], of s "''CacheKeys''"]
      redis_ok_nonempty [OF assms(3)] d r by simp
qed

lemma sweep_Tags:
  assumes "gc_keys s ks = Inr kc" "gc_tags s ts = Inr tc" "redis_ok s"
  shows "fold step (kc @ tc) s ''Tags'' =
           keep (\<lambda>t. \<not> (t \<in> set ts \<and> s (kbt t) = None)) (s ''Tags'')"
proof -
  have d: "Delete ''Tags'' \<notin> set (kc @ tc)"
    using gc_keys_Delete [OF assms(1)] gc_tags_Delete [OF assms(2)] by auto
  have r: "SRem ''Tags'' m \<notin> set (kc @ tc) \<longleftrightarrow> \<not> (m \<in> set ts \<and> s (kbt m) = None)" for m
    using gc_keys_SRem [OF assms(1)] gc_tags_SRem [OF assms(2)]
      redis_ok_empty_iff [OF assms(3), of "kbt m"] by auto
  show ?thesis
    using fold_removals [OF gc_cmds_removal [OF assms(1,2)], of s "''Tags''"]
      redis_ok_nonempty [OF assms(3)] d r by simp
qed

lemma sweep_tbk:
  assumes "gc_keys s ks = Inr kc" "gc_tags s ts = Inr tc" "redis_ok s"
  shows "fold step (kc @ tc) s (tbk k) = (if k \<in> set ks \<and> s k = None then None else s (tbk k))"
proof -
  have d: "Delete (tbk k) \<in> set (kc @ tc) \<longleftrightarrow> k \<in> set ks \<and> s k = None"
    using gc_keys_Delete [OF assms(1)] gc_tags_Delete [OF assms(2)] by auto
  have r: "SRem (tbk k) m \<notin> set (kc @ tc)" for m
    using gc_keys_SRem [OF assms(1)] gc_tags_SRem [OF assms(2)] by auto
  show ?thesis
    using fold_removals [OF gc_cmds_removal [OF assms(1,2)], of s "tbk k"]
      redis_ok_nonempty [OF assms(3)] d r by (simp add: keep_True)
qed

lemma sweep_kbt:
  assumes "gc_keys s ks = Inr kc" "gc_tags s ts = Inr tc" "redis_ok s"
  shows "fold step (kc @ tc) s (kbt t) =
           keep (\<lambda>m. \<not> (m \<in> set ks \<and> s m = None \<and> t \<in> set (smembers_of s (tbk m)))) (s (kbt t))"
proof -
  have d: "Delete (kbt t) \<in> set (kc @ tc) \<Longrightarrow> s (kbt t) = None"
    using gc_keys_Delete [OF assms(1)] gc_tags_Delete [OF assms(2)]
      redis_ok_empty_iff [OF assms(3), of "kbt t"] by auto
  have r: "SRem (kbt t) m \<notin> set (kc @ tc) \<longleftrightarrow>
             \<not> (m \<in> set ks \<and> s m = None \<and> t \<in> set (smembers_of s (tbk m)))" for m
    using gc_keys_SRem [OF assms(1)] gc_tags_SRem [OF assms(2)] by auto
  show ?thesis
    using fold_removals [OF gc_cmds_removal [OF assms(1,2)], of s "kbt t"]
      redis_ok_nonempty [OF assms(3)] d r by auto
qed

lemma sweep_other:
  assumes "gc_keys s ks = Inr kc" "gc_tags s ts = Inr tc" "\<not> index_name x"
  shows "fold step (kc @ tc) s x = s x"
  using fold_step_other [of "kc @ tc" x s] gc_cmds_index [OF assms(1,2)] assms(3) by blast

lemma smembers_of_keep_entry:
  assumes "s' x = keep P (s x)"
  shows "smembers_of s' x = filter P (smembers_of s x)"
proof (cases "s x")
  case None
  then show ?thesis using assms by (simp add: smembers_of_def)
next
  case (Some e)
  obtain v t where e: "e = (v, t)" by (cases e)
  show ?thesis
  proof (cases v)
    case (Str w)
    then show ?thesis using assms Some e by (simp add: smembers_of_def)
  next
    case (SetV ms)
    then show ?thesis using assms Some e by (simp add: smembers_of_def keep_def)
  qed
qed

lemma redis_ok_sweep_example: "redis_ok sweep_example"
  by (auto simp: redis_ok_def sweep_example_def index_name_def split: if_splits)

lemma gc_creates_nothing: "s x = None \<Longrightarrow> fst (gc s keys tags) x = None"
proof (cases rule: gc_cases [of s keys tags])
  case stopped
  assume "s x = None"
  with stopped show ?thesis by simp
next
  case (ran ks ts kc tc)
  assume x: "s x = None"
  have "fold step (kc @ tc) s x = None"
    using fold_removals [OF gc_cmds_removal [OF ran(1,2)], of s x] x by simp
  then show ?thesis by (simp add: ran(3) fst_execute)
qed

lemma keep_cong_members:
  assumes "\<And>ms t m. e = Some (SetV ms, t) \<Longrightarrow> m \<in> set ms \<Longrightarrow> P m = Q m"
  shows "keep P e = keep Q e"
proof (cases e)
  case None
  then show ?thesis by simp
next
  case (Some p)
  obtain v t where p: "p = (v, t)" by (cases p)
  show ?thesis
  proof (cases v)
    case (Str w)
    then show ?thesis using Some p by simp
  next
    case (SetV ms)
    have "filter P ms = filter Q ms"
      using assms [of ms t] Some p SetV by (auto intro: filter_cong)
    then show ?thesis using Some p SetV by (simp add: keep_def)
  qed
qed

text \<open>gc for the one key \<open>k\<close>, when \<open>k\<close> holds nothing, name by name.\<close>

lemma gc_one_absent:
  assumes "s k = None" "redis_ok s"
  shows "snd (gc s (Some [k]) None) = Inr ()"
    and "fst (gc s (Some [k]) None) ''CacheKeys'' = keep (\<lambda>m. m \<noteq> k) (s ''CacheKeys'')"
    and "fst (gc s (Some [k]) None) (tbk k') = (if k' = k then None else s (tbk k'))"
    and "fst (gc s (Some [k]) None) (kbt t)
           = keep (\<lambda>m. \<not> (m = k \<and> t \<in> set (smembers_of s (tbk k)))) (s (kbt t))"
    and "fst (gc s (Some [k]) None) ''Tags'' = keep (\<lambda>t. s (kbt t) \<noteq> None) (s ''Tags'')"
    and "\<not> index_name x \<Longrightarrow> fst (gc s (Some [k]) None) x = s x"
proof -
  have "snd (gc s (Some [k]) None) = Inr () \<and>
    fst (gc s (Some [k]) None) ''CacheKeys'' = keep (\<lambda>m. m \<noteq> k) (s ''CacheKeys'') \<and>
    fst (gc s (Some [k]) None) (tbk k') = (if k' = k then None else s (tbk k')) \<and>
    fst (gc s (Some [k]) None) (kbt t)
           = keep (\<lambda>m. \<not> (m = k \<and> t \<in> set (smembers_of s (tbk k)))) (s (kbt t)) \<and>
    fst (gc s (Some [k]) None) ''Tags'' = keep (\<lambda>t. s (kbt t) \<noteq> None) (s ''Tags'') \<and>
    (\<not> index_name x \<longrightarrow> fst (gc s (Some [k]) None) x = s x)"
  proof (rule gc_ok_ran [OF assms(2), of "Some [k]" None])
    fix ks ts kc tc
    assume kc: "gc_keys s ks = Inr kc" and tc: "gc_tags s ts = Inr tc"
      and g: "gc s (Some [k]) None = (fold step (kc @ tc) s, Inr ())"
      and ks0: "ks = (if Some [k] = None \<or> Some [k] = Some [] then smembers_of s ''CacheKeys''
                      else the (Some [k]))"
      and ts0: "ts = (if None = None \<or> None = Some [] then smembers_of s ''Tags'' else the None)"
    have ks: "ks = [k]" using ks0 by simp
    have ts: "ts = smembers_of s ''Tags''" using ts0 by simp
    let ?s1 = "fold step (kc @ tc) s"
    have 1: "?s1 ''CacheKeys'' = keep (\<lambda>m. m \<noteq> k) (s ''CacheKeys'')"
      using sweep_CacheKeys [OF kc tc assms(2)] assms(1) by (simp add: ks)
    have 2: "?s1 (tbk k') = (if k' = k then None else s (tbk k'))"
      using sweep_tbk [OF kc tc assms(2), of k'] assms(1) by (auto simp: ks)
    have "(\<lambda>m. \<not> (m \<in> set ks \<and> s m = None \<and> t \<in> set (smembers_of s (tbk m))))
        = (\<lambda>m. \<not> (m = k \<and> t \<in> set (smembers_of s (tbk k))))"
      using assms(1) by (auto simp: ks)
    then have 3: "?s1 (kbt t)
           = keep (\<lambda>m. \<not> (m = k \<and> t \<in> set (smembers_of s (tbk k)))) (s (kbt t))"
      using sweep_kbt [OF kc tc assms(2), of t] by simp
    have "keep (\<lambda>t. \<not> (t \<in> set ts \<and> s (kbt t) = None)) (s ''Tags'')
        = keep (\<lambda>t. s (kbt t) \<noteq> None) (s ''Tags'')"
      by (rule keep_cong_members) (auto simp: ts smembers_of_def)
    then have 4: "?s1 ''Tags'' = keep (\<lambda>t. s (kbt t) \<noteq> None) (s ''Tags'')"
      using sweep_Tags [OF kc tc assms(2)] by simp
    have 5: "\<not> index_name x \<Longrightarrow> ?s1 x = s x"
      using sweep_other [OF kc tc, of x] by simp
    show ?thesis using g 1 2 3 4 5 by simp
  qed
  then show "snd (gc s (Some [k]) None) = Inr ()"
    and "fst (gc s (Some [k]) None) ''CacheKeys'' = keep (\<lambda>m. m \<noteq> k) (s ''CacheKeys'')"
    and "fst (gc s (Some [k]) None) (tbk k') = (if k' = k then None else s (tbk k'))"
    and "fst (gc s (Some [k]) None) (kbt t)
           = keep (\<lambda>m. \<not> (m = k \<and> t \<in> set (smembers_of s (tbk k)))) (s (kbt t))"
    and "fst (gc s (Some [k]) None) ''Tags'' = keep (\<lambda>t. s (kbt t) \<noteq> None) (s ''Tags'')"
    and "\<not> index_name x \<Longrightarrow> fst (gc s (Some [k]) None) x = s x"
    by simp_all
qed


lemma keep_all:
  assumes "\<forall>t. e \<noteq> Some (SetV [], t)"
    and "\<And>ms t m. e = Some (SetV ms, t) \<Longrightarrow> m \<in> set ms \<Longrightarrow> P m"
  shows "keep P e = e"
proof -
  have "keep P e = keep (\<lambda>m. True) e"
    by (rule keep_cong_members) (use assms(2) in auto)
  then show ?thesis using keep_True [OF assms(1), of "\<lambda>m. True"] by simp
qed

lemma redis_ok_r_delete: "redis_ok s \<Longrightarrow> redis_ok (r_delete s k)"
  by (auto simp: redis_ok_def r_delete_def)

text \<open>
  A key is settled when it holds nothing, has no tag set and is not listed in
  \<^verbatim>\<open>CacheKeys\<close>. gc for one absent key settles it; on a settled key it only sweeps
  \<^verbatim>\<open>Tags\<close>.
\<close>

lemma gc_one_settles:
  assumes "s k = None" "redis_ok s"
  shows "redis_ok (fst (gc s (Some [k]) None))"
    and "fst (gc s (Some [k]) None) k = None"
    and "fst (gc s (Some [k]) None) (tbk k) = None"
    and "k \<notin> set (smembers_of (fst (gc s (Some [k]) None)) ''CacheKeys'')"
proof -
  show "redis_ok (fst (gc s (Some [k]) None))" by (rule redis_ok_gc [OF assms(2)])
  show "fst (gc s (Some [k]) None) k = None" by (rule gc_creates_nothing [of s k, OF assms(1)])
  show "fst (gc s (Some [k]) None) (tbk k) = None"
    using gc_one_absent(3) [OF assms, of k] by simp
  show "k \<notin> set (smembers_of (fst (gc s (Some [k]) None)) ''CacheKeys'')"
    using smembers_of_keep_entry [of "fst (gc s (Some [k]) None)" _ _ s,
        OF gc_one_absent(2) [OF assms]] by simp
qed

lemma gc_one_settled:
  assumes "s k = None" "redis_ok s" "s (tbk k) = None" "k \<notin> set (smembers_of s ''CacheKeys'')"
    and "x \<noteq> ''Tags''"
  shows "fst (gc s (Some [k]) None) x = s x"
proof (cases "index_name x")
  case False
  then show ?thesis by (rule gc_one_absent(6) [OF assms(1,2)])
next
  case True
  then show ?thesis
  proof (cases rule: index_name_cases)
    case 1
    have "keep (\<lambda>m. m \<noteq> k) (s ''CacheKeys'') = s ''CacheKeys''"
      by (rule keep_all) (use assms(2,4) in \<open>auto simp: redis_ok_nonempty smembers_of_def\<close>)
    then show ?thesis using gc_one_absent(2) [OF assms(1,2)] 1 by simp
  next
    case 2
    then show ?thesis using assms(5) by simp
  next
    case (3 k')
    then show ?thesis using gc_one_absent(3) [OF assms(1,2), of k'] assms(3) by auto
  next
    case (4 t)
    have "smembers_of s (tbk k) = []" using assms(3) by (simp add: smembers_of_def)
    then have "keep (\<lambda>m. \<not> (m = k \<and> t \<in> set (smembers_of s (tbk k)))) (s (kbt t)) = s (kbt t)"
      using keep_True [of "s (kbt t)" "\<lambda>m. True"] assms(2) by (simp add: redis_ok_nonempty)
    then show ?thesis using gc_one_absent(4) [OF assms(1,2), of t] 4 by simp
  qed
qed

lemma one_key_example_eq:
  "one_key_example =
     Map.empty(''tags-by-key:k'' \<mapsto> (SetV [''t''], None),
               ''keys-by-tag:t'' \<mapsto> (SetV [''k''], None),
               ''Tags'' \<mapsto> (SetV [''t''], None),
               ''CacheKeys'' \<mapsto> (SetV [''k''], None),
               ''k'' \<mapsto> (Str ''v'', None))"
  by (simp add: one_key_example_def set_cache_def tbk_def kbt_def)

lemma redis_ok_one_key_example: "redis_ok one_key_example"
  by (auto simp: redis_ok_def one_key_example_eq index_name_def split: if_splits)

lemma clear_once_example:
  "clear one_key_example ''k'' = (Map.empty(''Tags'' \<mapsto> (SetV [''t''], None)), Inr ())"
  by (simp add: one_key_example_eq clear_def gc_def r_delete_def r_smembers_def r_exists_def
        r_scard_def tbk_def kbt_def fun_eq_iff)

lemma clear_twice_example:
  "clear (Map.empty(''Tags'' \<mapsto> (SetV [''t''], None))) ''k'' = (Map.empty, Inr ())"
  by (simp add: clear_def gc_def r_delete_def r_smembers_def r_exists_def
        r_scard_def tbk_def kbt_def fun_eq_iff)

lemma r_smembers_step_other:
  "target c \<noteq> x \<Longrightarrow> r_smembers (step c s) x = r_smembers s x"
  by (simp add: r_smembers_def step_other)

lemma r_smembers_step_SAdd:
  "r_smembers s x = Inr old \<Longrightarrow>
   r_smembers (step (SAdd x m) s) x = Inr (if m \<in> set old then old else old @ [m])"
  by (auto simp: r_smembers_def step_def split: option.splits rval.splits prod.splits)

text \<open>
  A set that a pipeline only adds to: afterwards it holds what it held and what was
  added, whatever else the pipeline does to other names.
\<close>
lemma fold_sadd_only:
  "\<forall>c \<in> set cs. target c = x \<longrightarrow> is_sadd c \<Longrightarrow> r_smembers s x = Inr old \<Longrightarrow>
   \<exists>new. r_smembers (fold step cs s) x = Inr new \<and>
         set new = set old \<union> {m. SAdd x m \<in> set cs}"
proof (induction cs arbitrary: s old)
  case Nil
  then show ?case by simp
next
  case (Cons c cs)
  then have rest: "\<forall>c \<in> set cs. target c = x \<longrightarrow> is_sadd c" by simp
  show ?case
  proof (cases "target c = x")
    case False
    then have r: "r_smembers (step c s) x = Inr old"
      using Cons.prems(2) by (simp add: r_smembers_step_other)
    have n: "SAdd x m \<noteq> c" for m using False by auto
    from Cons.IH [OF rest r] n show ?thesis by auto
  next
    case True
    then have "is_sadd c" using Cons.prems(1) by simp
    then obtain m where c: "c = SAdd x m" using True by (cases c) auto
    let ?old = "if m \<in> set old then old else old @ [m]"
    have r: "r_smembers (step c s) x = Inr ?old"
      unfolding c by (rule r_smembers_step_SAdd [OF Cons.prems(2)])
    from Cons.IH [OF rest r] obtain new where
      "r_smembers (fold step cs (step c s)) x = Inr new"
      "set new = set ?old \<union> {m. SAdd x m \<in> set cs}" by blast
    then show ?thesis unfolding c by auto
  qed
qed

lemma set_tags_is_sadd: "c \<in> set (set_tags key tags) \<Longrightarrow> is_sadd c"
  by (induction tags) auto

lemma set_tags_SAdd:
  "SAdd x m \<in> set (set_tags key tags) \<longleftrightarrow>
     (x = tbk key \<and> m \<in> set tags) \<or>
     (m = key \<and> (\<exists>t \<in> set tags. x = kbt t)) \<or> (x = ''Tags'' \<and> m \<in> set tags)"
  by (induction tags) auto

lemma fst_set_cache: "fst (set_cache s key val tags ttl) = fold step (set_cmds key val tags ttl) s"
  by (simp add: set_cache_def set_cmds_def fst_execute)

lemma set_cmds_target:
  "c \<in> set (set_cmds key val tags ttl) \<Longrightarrow> is_sadd c \<or> target c = key"
  by (auto simp: set_cmds_def dest: set_tags_is_sadd split: option.splits if_splits)

lemma set_cmds_SAdd:
  "SAdd x m \<in> set (set_cmds key val tags ttl) \<longleftrightarrow>
     (x = tbk key \<and> m \<in> set tags) \<or>
     (m = key \<and> (\<exists>t \<in> set tags. x = kbt t)) \<or> (x = ''Tags'' \<and> m \<in> set tags) \<or>
     (x = ''CacheKeys'' \<and> m = key)"
  by (auto simp: set_cmds_def set_tags_SAdd split: option.splits if_splits)

text \<open>After \<open>set\<close>, the members of any set other than the key itself.\<close>

lemma set_cache_members:
  assumes "x \<noteq> key" "r_smembers s x = Inr old"
  shows "\<exists>new. r_smembers (fst (set_cache s key val tags ttl)) x = Inr new \<and>
           set new = set old \<union> {m. SAdd x m \<in> set (set_cmds key val tags ttl)}"
  unfolding fst_set_cache
  by (rule fold_sadd_only [OF _ assms(2)]) (use assms(1) set_cmds_target in blast)

lemma set_cache_value:
  "ttl_plain ttl \<Longrightarrow> \<exists>t. fst (set_cache s key val tags ttl) key = Some (Str val, t)"
  by (auto simp: ttl_plain_def fst_set_cache set_cmds_def step_def split: option.splits)


lemma set_cache_tags:
  assumes "r_smembers s (tbk k) = Inr old"
  shows "\<exists>new. get_tags (fst (set_cache s k v T ttl)) k = Inr new \<and> set new = set old \<union> set T"
proof -
  have "{m. SAdd (tbk k) m \<in> set (set_cmds k v T ttl)} = set T"
    by (auto simp: set_cmds_SAdd)
  then show ?thesis
    using set_cache_members [of "tbk k" k s old v T ttl] assms by (simp add: get_tags_def)
qed

lemma set_cache_keys:
  assumes "r_smembers s (kbt t) = Inr old" "k \<noteq> kbt t" "t \<in> set T"
  shows "\<exists>new. get_keys (fst (set_cache s k v T ttl)) t = Inr new \<and> k \<in> set new"
proof -
  have "k \<in> {m. SAdd (kbt t) m \<in> set (set_cmds k v T ttl)}"
    using assms(3) by (auto simp: set_cmds_SAdd)
  then show ?thesis
    using set_cache_members [of "kbt t" k s old v T ttl] assms(1,2)
    by (auto simp: get_keys_def)
qed

lemma get_after_set:
  "ttl_plain ttl \<Longrightarrow>
   get (fst (set_cache s k v T ttl)) k g = (fst (set_cache s k v T ttl), Inr (Some v))"
  using set_cache_value [of ttl s k v T] by (auto simp: get_def r_get_def)

lemma step_write_ok:
  assumes "redis_ok s" "\<not> removal c" "is_sadd c \<longleftrightarrow> index_name (target c)"
  shows "redis_ok (step c s)"
proof (cases c)
  case (SAdd y m)
  then show ?thesis using assms unfolding redis_ok_def
    by (auto simp: step_def split: option.splits rval.splits prod.splits if_splits)
next
  case (SetStr y v)
  then show ?thesis using assms unfolding redis_ok_def
    by (auto simp: step_def split: if_splits)
next
  case (Expire y n)
  then show ?thesis using assms unfolding redis_ok_def
    by (auto simp: step_def split: option.splits prod.splits if_splits)
qed (use assms in auto)

lemma step_write_no_error:
  assumes "redis_ok s" "\<not> removal c" "is_sadd c \<longleftrightarrow> index_name (target c)"
    and "\<And>y n. c = Expire y n \<Longrightarrow> 0 \<le> n \<and> n \<le> 2147483647"
  shows "exec_cmd c s = Inr (step c s)"
proof (cases c)
  case (Expire y n)
  then have "0 \<le> n \<and> n \<le> 2147483647" by (rule assms(4))
  then show ?thesis unfolding Expire
    by (auto simp: step_def split: option.splits prod.splits)
qed (use assms(1,2,3) in
      \<open>auto simp: step_def redis_ok_def split: option.splits rval.splits prod.splits\<close>)

lemma fold_writes_ok:
  "redis_ok s \<Longrightarrow> \<forall>c \<in> set cs. \<not> removal c \<and> (is_sadd c \<longleftrightarrow> index_name (target c)) \<Longrightarrow>
   redis_ok (fold step cs s)"
proof (induction cs arbitrary: s)
  case Nil
  then show ?case by simp
next
  case (Cons c cs)
  then have c: "\<not> removal c" "is_sadd c \<longleftrightarrow> index_name (target c)" by simp_all
  note st = step_write_ok [OF Cons.prems(1) c]
  from Cons.IH [OF st] Cons.prems(2) show ?case by simp
qed

lemma execute_writes_ok:
  "redis_ok s \<Longrightarrow>
   \<forall>c \<in> set cs. \<not> removal c \<and> (is_sadd c \<longleftrightarrow> index_name (target c)) \<and>
                (\<forall>y n. c = Expire y n \<longrightarrow> 0 \<le> n \<and> n \<le> 2147483647) \<Longrightarrow>
   snd (execute cs s) = None"
proof (induction cs arbitrary: s)
  case Nil
  then show ?case by simp
next
  case (Cons c cs)
  then have c: "\<not> removal c" "is_sadd c \<longleftrightarrow> index_name (target c)"
    and e: "\<And>y n. c = Expire y n \<Longrightarrow> 0 \<le> n \<and> n \<le> 2147483647" by simp_all
  have ok: "redis_ok (step c s)" by (rule step_write_ok [OF Cons.prems(1) c])
  have ex: "exec_cmd c s = Inr (step c s)"
    by (rule step_write_no_error [OF Cons.prems(1) c e])
  from Cons.IH [OF ok] Cons.prems(2) ex show ?case by simp
qed

lemma set_cmds_write_ok:
  assumes "\<not> index_name key" "c \<in> set (set_cmds key val tags ttl)"
  shows "\<not> removal c \<and> (is_sadd c \<longleftrightarrow> index_name (target c))"
proof -
  have "c \<in> set (set_tags key tags) \<Longrightarrow> ?thesis"
    by (induction tags) auto
  then show ?thesis using assms
    by (auto simp: set_cmds_def split: option.splits if_splits)
qed

lemma set_cmds_expire:
  assumes "ttl_plain ttl" "Expire y n \<in> set (set_cmds key val tags ttl)"
  shows "0 \<le> n \<and> n \<le> 2147483647"
proof -
  have "Expire y n \<notin> set (set_tags key tags)" by (induction tags) auto
  then show ?thesis using assms
    by (auto simp: set_cmds_def ttl_plain_def split: option.splits if_splits)
qed

lemma set_cache_redis_ok:
  assumes "redis_ok s" "\<not> index_name key"
  shows "redis_ok (fst (set_cache s key val tags ttl))"
  unfolding fst_set_cache
  by (rule fold_writes_ok [OF assms(1)]) (use set_cmds_write_ok [OF assms(2)] in blast)

lemma set_cache_no_error:
  assumes "redis_ok s" "\<not> index_name key" "ttl_plain ttl"
  shows "snd (set_cache s key val tags ttl) = Inr ()"
proof -
  have "snd (execute (set_cmds key val tags ttl) s) = None"
    by (rule execute_writes_ok [OF assms(1)])
       (use set_cmds_write_ok [OF assms(2)] set_cmds_expire [OF assms(3)] in blast)
  then show ?thesis by (simp add: set_cache_def set_cmds_def)
qed

text \<open>
  What a sequence of \<open>set\<close> calls keeps true, and what \<open>clear_all\<close> makes of it.
\<close>

lemma set_cmds_targets:
  "c \<in> set (set_cmds key val tags ttl) \<Longrightarrow>
   target c = tbk key \<or> (\<exists>t \<in> set tags. target c = kbt t) \<or> target c = ''Tags'' \<or>
   target c = ''CacheKeys'' \<or> target c = key"
proof -
  have "c \<in> set (set_tags key tags) \<Longrightarrow>
        target c = tbk key \<or> (\<exists>t \<in> set tags. target c = kbt t) \<or> target c = ''Tags''"
    by (induction tags) auto
  then show "c \<in> set (set_cmds key val tags ttl) \<Longrightarrow> ?thesis"
    by (auto simp: set_cmds_def split: option.splits if_splits)
qed

lemma set_cache_new_names:
  assumes "fst (set_cache s key val tags ttl) x \<noteq> None" "s x = None"
  shows "x = tbk key \<or> (\<exists>t \<in> set tags. x = kbt t) \<or> x = ''Tags'' \<or> x = ''CacheKeys'' \<or> x = key"
proof -
  have "\<exists>c \<in> set (set_cmds key val tags ttl). target c = x"
  proof (rule ccontr)
    assume "\<not> (\<exists>c \<in> set (set_cmds key val tags ttl). target c = x)"
    then have "\<forall>c \<in> set (set_cmds key val tags ttl). target c \<noteq> x" by blast
    then have "fold step (set_cmds key val tags ttl) s x = s x" by (rule fold_step_other)
    with assms show False by (simp add: fst_set_cache)
  qed
  then obtain c where "c \<in> set (set_cmds key val tags ttl)" "target c = x" by blast
  then show ?thesis using set_cmds_targets [of c key val tags ttl] by auto
qed

lemma set_cache_roots:
  assumes "redis_ok s" "\<not> index_name key"
  shows "set (smembers_of (fst (set_cache s key val tags ttl)) ''CacheKeys'')
           = set (smembers_of s ''CacheKeys'') \<union> {key}"
    and "set (smembers_of (fst (set_cache s key val tags ttl)) ''Tags'')
           = set (smembers_of s ''Tags'') \<union> set tags"
proof -
  have k: "''CacheKeys'' \<noteq> key" "''Tags'' \<noteq> key" using assms(2) by auto
  have rc: "r_smembers s ''CacheKeys'' = Inr (smembers_of s ''CacheKeys'')"
    by (rule redis_ok_smembers [OF assms(1)]) simp
  have rt: "r_smembers s ''Tags'' = Inr (smembers_of s ''Tags'')"
    by (rule redis_ok_smembers [OF assms(1)]) simp
  have c: "{m. SAdd ''CacheKeys'' m \<in> set (set_cmds key val tags ttl)} = {key}"
    by (auto simp: set_cmds_SAdd)
  have t: "{m. SAdd ''Tags'' m \<in> set (set_cmds key val tags ttl)} = set tags"
    by (auto simp: set_cmds_SAdd)
  show "set (smembers_of (fst (set_cache s key val tags ttl)) ''CacheKeys'')
           = set (smembers_of s ''CacheKeys'') \<union> {key}"
    using set_cache_members [OF k(1) rc, of val tags ttl] c by (auto dest: r_smembers_Inr)
  show "set (smembers_of (fst (set_cache s key val tags ttl)) ''Tags'')
           = set (smembers_of s ''Tags'') \<union> set tags"
    using set_cache_members [OF k(2) rt, of val tags ttl] t by (auto dest: r_smembers_Inr)
qed

lemma covered_set_cache:
  assumes "redis_ok s" "covered s" "\<not> index_name key"
  shows "covered (fst (set_cache s key val tags ttl))"
  unfolding covered_def
proof (intro allI impI)
  fix x
  let ?s' = "fst (set_cache s key val tags ttl)"
  note roots = set_cache_roots [OF assms(1,3), of val tags ttl]
  assume x: "?s' x \<noteq> None"
  show "x = ''CacheKeys'' \<or> x = ''Tags'' \<or>
        (\<exists>k \<in> set (smembers_of ?s' ''CacheKeys''). x = k \<or> x = tbk k) \<or>
        (\<exists>t \<in> set (smembers_of ?s' ''Tags''). x = kbt t)"
  proof (cases "s x = None")
    case True
    from set_cache_new_names [OF x True] show ?thesis unfolding roots by auto
  next
    case False
    then show ?thesis using assms(2) unfolding covered_def roots by auto
  qed
qed

lemma set_many_invariant:
  "redis_ok s \<Longrightarrow> covered s \<Longrightarrow> \<forall>c \<in> set calls. \<not> index_name (fst c) \<Longrightarrow>
   redis_ok (set_many s calls) \<and> covered (set_many s calls)"
proof (induction calls arbitrary: s)
  case Nil
  then show ?case by simp
next
  case (Cons c calls)
  obtain key val tags ttl where c: "c = (key, val, tags, ttl)" by (cases c)
  have k: "\<not> index_name key" using Cons.prems(3) c by simp
  have ok: "redis_ok (fst (set_cache s key val tags ttl))"
    by (rule set_cache_redis_ok [OF Cons.prems(1) k])
  have cov: "covered (fst (set_cache s key val tags ttl))"
    by (rule covered_set_cache [OF Cons.prems(1,2) k])
  from Cons.IH [OF ok cov] Cons.prems(3) show ?case by (simp add: c)
qed

lemma empty_invariant: "redis_ok Map.empty" "covered Map.empty"
  by (simp_all add: redis_ok_def covered_def)

lemma clear_all_keys_cmds:
  "c \<in> set (clear_all_keys keys) \<longleftrightarrow> (\<exists>k \<in> set keys. c = Delete k \<or> c = Delete (tbk k))"
  by (induction keys) auto

lemma clear_all_tags_cmds:
  "c \<in> set (clear_all_tags tags) \<longleftrightarrow> (\<exists>t \<in> set tags. c = Delete (kbt t))"
  by (induction tags) auto

lemma execute_deletes:
  "\<forall>c \<in> set cs. \<exists>x. c = Delete x \<Longrightarrow>
   execute cs s = ((\<lambda>x. if Delete x \<in> set cs then None else s x), None)"
proof (induction cs arbitrary: s)
  case Nil
  then show ?case by simp
next
  case (Cons c cs)
  then obtain y where c: "c = Delete y" by auto
  from Cons have "execute cs (s(y := None))
      = ((\<lambda>x. if Delete x \<in> set cs then None else (s(y := None)) x), None)" by simp
  then show ?case by (auto simp: c fun_eq_iff)
qed

lemma clear_all_covered:
  assumes "redis_ok s" "covered s"
  shows "clear_all s = (Map.empty, Inr ())"
proof -
  let ?ks = "smembers_of s ''CacheKeys''" and ?ts = "smembers_of s ''Tags''"
  let ?cs = "clear_all_keys ?ks @ clear_all_tags ?ts @ [Delete ''CacheKeys'', Delete ''Tags'']"
  have rc: "r_smembers s ''CacheKeys'' = Inr ?ks"
    by (rule redis_ok_smembers [OF assms(1)]) simp
  have rt: "r_smembers s ''Tags'' = Inr ?ts"
    by (rule redis_ok_smembers [OF assms(1)]) simp
  have d: "\<forall>c \<in> set ?cs. \<exists>x. c = Delete x"
    by (auto simp: clear_all_keys_cmds clear_all_tags_cmds)
  have "(\<lambda>x. if Delete x \<in> set ?cs then None else s x) = Map.empty"
  proof
    fix x
    show "(if Delete x \<in> set ?cs then None else s x) = None"
    proof (cases "s x = None")
      case True
      then show ?thesis by simp
    next
      case False
      then have "Delete x \<in> set ?cs"
        using assms(2) unfolding covered_def
        by (auto simp: clear_all_keys_cmds clear_all_tags_cmds)
      then show ?thesis by simp
    qed
  qed
  then have "execute ?cs s = (Map.empty, None)"
    using execute_deletes [OF d, of s] by simp
  then show ?thesis by (simp add: clear_all_def rc rt)
qed

lemma gc_empty: "gc Map.empty None None = (Map.empty, Inr ())"
  by (simp add: gc_def r_smembers_def)

lemma set_many_example:
  "set_many Map.empty [(''a'', ''1'', [''x'', ''y''], None), (''b'', ''2'', [''x''], Some (5::int))] =
     Map.empty(''tags-by-key:a'' \<mapsto> (SetV [''x'', ''y''], None),
               ''keys-by-tag:y'' \<mapsto> (SetV [''a''], None),
               ''a'' \<mapsto> (Str ''1'', None),
               ''tags-by-key:b'' \<mapsto> (SetV [''x''], None),
               ''keys-by-tag:x'' \<mapsto> (SetV [''a'', ''b''], None),
               ''Tags'' \<mapsto> (SetV [''x'', ''y''], None),
               ''CacheKeys'' \<mapsto> (SetV [''a'', ''b''], None),
               ''b'' \<mapsto> (Str ''2'', Some 5))"
  by (simp add: set_cache_def tbk_def kbt_def fun_eq_iff)

text \<open>gc and the names it leaves alone.\<close>

lemma gc_keeps_strings:
  "s k = Some (Str v, t) \<Longrightarrow> fst (gc s keys tags) k = Some (Str v, t)"
proof (cases rule: gc_cases [of s keys tags])
  case stopped
  assume "s k = Some (Str v, t)"
  with stopped show ?thesis by simp
next
  case (ran ks ts kc tc)
  assume k: "s k = Some (Str v, t)"
  have nd: "Delete k \<notin> set (kc @ tc)"
    using gc_cmds_Delete_not_Str [OF ran(1,2)] k by blast
  have "fold step (kc @ tc) s k = Some (Str v, t)"
    using fold_removals [OF gc_cmds_removal [OF ran(1,2)], of s k] nd k by simp
  then show ?thesis by (simp add: ran(3) fst_execute)
qed

lemma gc_only_index_names: "\<not> index_name x \<Longrightarrow> fst (gc s keys tags) x = s x"
proof (cases rule: gc_cases [of s keys tags])
  case stopped
  then show ?thesis by simp
next
  case (ran ks ts kc tc)
  assume "\<not> index_name x"
  then have "fold step (kc @ tc) s x = s x" by (rule sweep_other [OF ran(1,2)])
  then show ?thesis by (simp add: ran(3) fst_execute)
qed

lemma clear_tag_loop_eq:
  "fst (clear_tag_loop ks) = map Delete ks" "set (snd (clear_tag_loop ks)) = set ks"
  by (induction ks) (auto split: prod.splits)

lemma redis_ok_without: "redis_ok s \<Longrightarrow> redis_ok (\<lambda>x. if P x then None else s x)"
  by (auto simp: redis_ok_def split: if_splits)

text \<open>
  \<open>clear_tag\<close> on a well-formed keyspace: the member keys and the key set are deleted, and
  gc then runs, on the deleted keys when there are any.
\<close>

lemma clear_tag_unfold:
  assumes "redis_ok s"
  shows "clear_tag s t =
     gc (\<lambda>x. if x \<in> set (smembers_of s (kbt t)) \<or> x = kbt t then None else s x)
        (Some (snd (clear_tag_loop (smembers_of s (kbt t))))) None"
proof -
  let ?ms = "smembers_of s (kbt t)"
  let ?cs = "map Delete ?ms @ [Delete (kbt t)]"
  have r: "r_smembers s (kbt t) = Inr ?ms" by (rule redis_ok_smembers [OF assms]) simp
  have d: "\<forall>c \<in> set ?cs. \<exists>x. c = Delete x" by auto
  have "(\<lambda>x. if Delete x \<in> set ?cs then None else s x)
      = (\<lambda>x. if x \<in> set ?ms \<or> x = kbt t then None else s x)" by auto
  then have e: "execute ?cs s
      = ((\<lambda>x. if x \<in> set ?ms \<or> x = kbt t then None else s x), None)"
    using execute_deletes [OF d, of s] by simp
  obtain cs dk where l: "clear_tag_loop ?ms = (cs, dk)" by (cases "clear_tag_loop ?ms")
  then have cs: "cs = map Delete ?ms" using clear_tag_loop_eq(1) [of ?ms] by simp
  show ?thesis by (simp add: clear_tag_def r l cs e)
qed

lemma clear_tag_effect:
  assumes "redis_ok s"
  shows "snd (clear_tag s t) = Inr ()"
    and "redis_ok (fst (clear_tag s t))"
    and "fst (clear_tag s t) (kbt t) = None"
    and "k \<in> set (smembers_of s (kbt t)) \<Longrightarrow> fst (clear_tag s t) k = None"
    and "k \<in> set (smembers_of s (kbt t)) \<Longrightarrow> fst (clear_tag s t) (tbk k) = None"
    and "k \<in> set (smembers_of s (kbt t)) \<Longrightarrow>
           k \<notin> set (smembers_of (fst (clear_tag s t)) ''CacheKeys'')"
    and "\<not> index_name x \<Longrightarrow> x \<notin> set (smembers_of s (kbt t)) \<Longrightarrow> fst (clear_tag s t) x = s x"
proof -
  let ?ms = "smembers_of s (kbt t)"
  let ?s1 = "\<lambda>x. if x \<in> set ?ms \<or> x = kbt t then None else s x"
  let ?dk = "snd (clear_tag_loop ?ms)"
  note u = clear_tag_unfold [OF assms, of t]
  have ok1: "redis_ok ?s1" by (rule redis_ok_without [OF assms])
  show "redis_ok (fst (clear_tag s t))" unfolding u by (rule redis_ok_gc [OF ok1])
  show "fst (clear_tag s t) (kbt t) = None" unfolding u by (rule gc_creates_nothing) simp
  show "fst (clear_tag s t) k = None" if "k \<in> set ?ms" for k
    unfolding u by (rule gc_creates_nothing) (use that in simp)
  show "fst (clear_tag s t) x = s x" if "\<not> index_name x" "x \<notin> set ?ms" for x
  proof -
    have "x \<noteq> kbt t" using that(1) by auto
    then have "?s1 x = s x" using that(2) by simp
    then show ?thesis unfolding u using gc_only_index_names [OF that(1), of ?s1] by simp
  qed
  have ran: "snd (gc ?s1 (Some ?dk) None) = Inr () \<and>
      (\<forall>k \<in> set ?ms. fst (gc ?s1 (Some ?dk) None) (tbk k) = None \<and>
         k \<notin> set (smembers_of (fst (gc ?s1 (Some ?dk) None)) ''CacheKeys''))"
  proof (rule gc_ok_ran [OF ok1, of "Some ?dk" None])
    fix ks ts kc tc
    assume kc: "gc_keys ?s1 ks = Inr kc" and tc: "gc_tags ?s1 ts = Inr tc"
      and g: "gc ?s1 (Some ?dk) None = (fold step (kc @ tc) ?s1, Inr ())"
      and ks0: "ks = (if Some ?dk = None \<or> Some ?dk = Some [] then smembers_of ?s1 ''CacheKeys''
                      else the (Some ?dk))"
    have "fold step (kc @ tc) ?s1 (tbk k) = None \<and>
          k \<notin> set (smembers_of (fold step (kc @ tc) ?s1) ''CacheKeys'')" if k: "k \<in> set ?ms" for k
    proof -
      have "set ?dk = set ?ms" by (rule clear_tag_loop_eq(2))
      then have "?dk \<noteq> []" and kin: "k \<in> set ?dk" using k by auto
      then have ks: "ks = ?dk" using ks0 by simp
      have gone: "?s1 k = None" using k by simp
      have 1: "fold step (kc @ tc) ?s1 (tbk k) = None"
        using sweep_tbk [OF kc tc ok1, of k] kin gone by (simp add: ks)
      have "smembers_of (fold step (kc @ tc) ?s1) ''CacheKeys''
          = filter (\<lambda>m. \<not> (m \<in> set ks \<and> ?s1 m = None)) (smembers_of ?s1 ''CacheKeys'')"
        by (rule smembers_of_keep_entry [of "fold step (kc @ tc) ?s1" _ _ ?s1,
              OF sweep_CacheKeys [OF kc tc ok1]])
      then have 2: "k \<notin> set (smembers_of (fold step (kc @ tc) ?s1) ''CacheKeys'')"
        using kin gone by (simp add: ks)
      from 1 2 show ?thesis by blast
    qed
    then show ?thesis using g by simp
  qed
  then show "snd (clear_tag s t) = Inr ()"
    and "k \<in> set ?ms \<Longrightarrow> fst (clear_tag s t) (tbk k) = None"
    and "k \<in> set ?ms \<Longrightarrow> k \<notin> set (smembers_of (fst (clear_tag s t)) ''CacheKeys'')"
    unfolding u by simp_all
qed

lemma get_absent:
  assumes "redis_ok s" "s k = None"
  shows "get s k True = (fst (gc s (Some [k]) None), Inr None)"
proof -
  have "snd (gc s (Some [k]) None) = Inr ()" by (rule gc_one_absent(1) [OF assms(2,1)])
  then obtain s1 where g: "gc s (Some [k]) None = (s1, Inr ())"
    by (cases "gc s (Some [k]) None") simp
  show ?thesis using assms(2) by (simp add: get_def r_get_def g)
qed

lemma set_cache_keys_kept:
  assumes "r_smembers s (kbt t) = Inr old" "k \<noteq> kbt t" "m \<in> set old"
  shows "m \<in> set (smembers_of (fst (set_cache s k v T ttl)) (kbt t))"
  using set_cache_members [of "kbt t" k s old v T ttl] assms
  by (auto dest: r_smembers_Inr)

lemma posts_example_at:
  "smembers_of posts_example (kbt ''Post'') = [''P1'', ''P2'']"
  "posts_example ''P1'' = Some (Str ''x'', None)"
  "posts_example ''live'' = Some (Str ''v'', None)"
  by (simp_all add: posts_example_def sweep_example_def set_cache_def smembers_of_def
        tbk_def kbt_def)

text \<open>gc without arguments on a well-formed keyspace, name by name.\<close>

lemma full_sweep_effect:
  assumes "redis_ok s"
  shows "snd (gc s None None) = Inr ()"
    and "smembers_of (fst (gc s None None)) ''CacheKeys''
           = filter (\<lambda>k. s k \<noteq> None) (smembers_of s ''CacheKeys'')"
    and "fst (gc s None None) (tbk k)
           = (if k \<in> set (smembers_of s ''CacheKeys'') \<and> s k = None then None else s (tbk k))"
    and "smembers_of (fst (gc s None None)) (kbt t)
           = filter (\<lambda>k. \<not> (k \<in> set (smembers_of s ''CacheKeys'') \<and> s k = None
                             \<and> t \<in> set (smembers_of s (tbk k))))
               (smembers_of s (kbt t))"
    and "smembers_of (fst (gc s None None)) ''Tags''
           = filter (\<lambda>t. s (kbt t) \<noteq> None) (smembers_of s ''Tags'')"
proof -
  have "snd (gc s None None) = Inr () \<and>
    smembers_of (fst (gc s None None)) ''CacheKeys''
           = filter (\<lambda>k. s k \<noteq> None) (smembers_of s ''CacheKeys'') \<and>
    fst (gc s None None) (tbk k)
           = (if k \<in> set (smembers_of s ''CacheKeys'') \<and> s k = None then None else s (tbk k)) \<and>
    smembers_of (fst (gc s None None)) (kbt t)
           = filter (\<lambda>k. \<not> (k \<in> set (smembers_of s ''CacheKeys'') \<and> s k = None
                             \<and> t \<in> set (smembers_of s (tbk k))))
               (smembers_of s (kbt t)) \<and>
    smembers_of (fst (gc s None None)) ''Tags''
           = filter (\<lambda>t. s (kbt t) \<noteq> None) (smembers_of s ''Tags'')"
  proof (rule gc_ok_ran [OF assms, of None None])
    fix ks ts kc tc
    assume kc: "gc_keys s ks = Inr kc" and tc: "gc_tags s ts = Inr tc"
      and g: "gc s None None = (fold step (kc @ tc) s, Inr ())"
      and ks0: "ks = (if None = None \<or> None = Some [] then smembers_of s ''CacheKeys''
                      else the None)"
      and ts0: "ts = (if None = None \<or> None = Some [] then smembers_of s ''Tags'' else the None)"
    have ks: "ks = smembers_of s ''CacheKeys''" using ks0 by simp
    have ts: "ts = smembers_of s ''Tags''" using ts0 by simp
    let ?s1 = "fold step (kc @ tc) s"
    have 1: "smembers_of ?s1 ''CacheKeys'' = filter (\<lambda>k. s k \<noteq> None) (smembers_of s ''CacheKeys'')"
      using smembers_of_keep_entry [of ?s1 _ _ s, OF sweep_CacheKeys [OF kc tc assms]]
      by (auto simp: ks intro: filter_cong)
    have 2: "?s1 (tbk k)
           = (if k \<in> set (smembers_of s ''CacheKeys'') \<and> s k = None then None else s (tbk k))"
      using sweep_tbk [OF kc tc assms, of k] by (simp add: ks)
    have 3: "smembers_of ?s1 (kbt t)
           = filter (\<lambda>k. \<not> (k \<in> set (smembers_of s ''CacheKeys'') \<and> s k = None
                             \<and> t \<in> set (smembers_of s (tbk k))))
               (smembers_of s (kbt t))"
      using smembers_of_keep_entry [of ?s1 _ _ s, OF sweep_kbt [OF kc tc assms, of t]]
      by (simp add: ks)
    have 4: "smembers_of ?s1 ''Tags'' = filter (\<lambda>t. s (kbt t) \<noteq> None) (smembers_of s ''Tags'')"
      using smembers_of_keep_entry [of ?s1 _ _ s, OF sweep_Tags [OF kc tc assms]]
      by (auto simp: ts intro: filter_cong)
    show ?thesis using g 1 2 3 4 by simp
  qed
  then show "snd (gc s None None) = Inr ()"
    and "smembers_of (fst (gc s None None)) ''CacheKeys''
           = filter (\<lambda>k. s k \<noteq> None) (smembers_of s ''CacheKeys'')"
    and "fst (gc s None None) (tbk k)
           = (if k \<in> set (smembers_of s ''CacheKeys'') \<and> s k = None then None else s (tbk k))"
    and "smembers_of (fst (gc s None None)) (kbt t)
           = filter (\<lambda>k. \<not> (k \<in> set (smembers_of s ''CacheKeys'') \<and> s k = None
                             \<and> t \<in> set (smembers_of s (tbk k))))
               (smembers_of s (kbt t))"
    and "smembers_of (fst (gc s None None)) ''Tags''
           = filter (\<lambda>t. s (kbt t) \<noteq> None) (smembers_of s ''Tags'')"
    by simp_all
qed

lemma clear_tag_empty:
  assumes "redis_ok s" "get_keys s t = Inr []"
  shows "clear_tag s t = gc s None None"
proof -
  have "smembers_of s (kbt t) = []" using assms(2) by (auto simp: get_keys_def dest: r_smembers_Inr)
  then have a: "s (kbt t) = None" using redis_ok_empty_iff [OF assms(1), of "kbt t"] by simp
  then show ?thesis using assms(2)
    by (simp add: clear_tag_def get_keys_def gc_def fun_upd_idem)
qed

lemma set_twice_example:
  "fst (set_cache (fst (set_cache Map.empty ''k'' ''v1'' [''a''] None))
          ''k'' ''v2'' [''b''] (Some 60)) =
     Map.empty(''keys-by-tag:a'' \<mapsto> (SetV [''k''], None),
               ''tags-by-key:k'' \<mapsto> (SetV [''a'', ''b''], None),
               ''keys-by-tag:b'' \<mapsto> (SetV [''k''], None),
               ''Tags'' \<mapsto> (SetV [''a'', ''b''], None),
               ''CacheKeys'' \<mapsto> (SetV [''k''], None),
               ''k'' \<mapsto> (Str ''v2'', Some 60))"
  by (simp add: set_cache_def tbk_def kbt_def fun_eq_iff)

lemma set_again_example:
  "fst (set_cache one_key_example ''k'' ''w'' [''a'', ''a'', ''b''] (Some 60)) =
     Map.empty(''tags-by-key:k'' \<mapsto> (SetV [''t'', ''a'', ''b''], None),
               ''keys-by-tag:t'' \<mapsto> (SetV [''k''], None),
               ''keys-by-tag:a'' \<mapsto> (SetV [''k''], None),
               ''keys-by-tag:b'' \<mapsto> (SetV [''k''], None),
               ''Tags'' \<mapsto> (SetV [''t'', ''a'', ''b''], None),
               ''CacheKeys'' \<mapsto> (SetV [''k''], None),
               ''k'' \<mapsto> (Str ''w'', Some 60))"
  by (simp add: one_key_example_eq set_cache_def tbk_def kbt_def fun_eq_iff)

text \<open>
  Outside the plain times to live \<open>set\<close> behaves differently: a negative one deletes the
  entry that was just written, and one that does not fit is an error raised by the
  pipeline, after the other commands have run.
\<close>

lemma set_negative_ttl:
  "snd (set_cache Map.empty ''k'' ''v'' [] (Some (- 1))) = Inr () \<and>
   fst (set_cache Map.empty ''k'' ''v'' [] (Some (- 1))) ''k'' = None"
  by (simp add: set_cache_def)

lemma set_huge_ttl:
  "snd (set_cache Map.empty ''k'' ''v'' [] (Some (2 ^ 63))) = Inl InvalidExpire \<and>
   fst (set_cache Map.empty ''k'' ''v'' [] (Some (2 ^ 63))) ''k'' = Some (Str ''v'', None)"
  by (simp add: set_cache_def)

section \<open>Reads that miss\<close>

text \<open>
  C8. When the primary entry of \<open>k\<close> is absent, \<open>get\<close> with gc disabled returns the
  not-found signal and the store is exactly as it was.
\<close>

theorem get_without_gc_no_effect:
  "s k = None \<Longrightarrow> get s k False = (s, Inr None)"
  by (simp add: get_def r_get_def)

theorem get_without_gc_no_effect_witness:
  "(Map.empty(''CacheKeys'' \<mapsto> (SetV [''a''], None))) ''a'' = None \<and>
   get (Map.empty(''CacheKeys'' \<mapsto> (SetV [''a''], None))) ''a'' False
     = (Map.empty(''CacheKeys'' \<mapsto> (SetV [''a''], None)), Inr None)"
  using get_without_gc_no_effect [of "Map.empty(''CacheKeys'' \<mapsto> (SetV [''a''], None))" "''a''"]
  by simp

section \<open>What a sweep never touches\<close>

text \<open>
  C9. Whatever the keys and tags arguments and whatever the keyspace, gc leaves every
  primary entry as it is: a name that holds a string value before the sweep holds the same
  value, with the same time to live, after it. Its commands only remove members from sets
  and delete sets under index names, so a name that is not an index name is not touched at
  all.
\<close>

theorem gc_keeps_primary_entries:
  "(s k = Some (Str v, t) \<longrightarrow> fst (gc s keys tags) k = Some (Str v, t)) \<and>
   (\<not> index_name k \<longrightarrow> fst (gc s keys tags) k = s k)"
  using gc_keeps_strings [of s k v t keys tags] gc_only_index_names [of k s keys tags]
  by blast

theorem gc_keeps_primary_entries_witness:
  "sweep_example ''live'' = Some (Str ''v'', None) \<and> \<not> index_name ''live'' \<and>
   fst (gc sweep_example (Some [''live'', ''gone'']) (Some [''a''])) ''live''
     = Some (Str ''v'', None) \<and>
   fst (gc sweep_example (Some [''live'', ''gone'']) (Some [''a''])) ''live''
     = sweep_example ''live''"
proof -
  have a: "sweep_example ''live'' = Some (Str ''v'', None)" by (simp add: sweep_example_def)
  have n: "\<not> index_name ''live''" by (simp add: index_name_def)
  note t = gc_keeps_primary_entries
    [of sweep_example "''live''" "''v''" None "Some [''live'', ''gone'']" "Some [''a'']"]
  show ?thesis using a n t by blast
qed

section \<open>The full sweep\<close>

text \<open>
  C1, as the code has it. On a well-formed keyspace, gc without arguments raises no error
  and removes exactly the orphaned keys (members of \<^verbatim>\<open>CacheKeys\<close> whose primary entry does not
  exist) from \<^verbatim>\<open>CacheKeys\<close> and from every key set listed in their tag sets, and deletes
  their tag sets; a key set that loses its last member is deleted with it. From \<^verbatim>\<open>Tags\<close> it
  removes exactly the tags whose key set was already absent when the sweep started: the
  cardinalities are read before the queued removals run. Every other key keeps its primary
  entry, its tag set and its place in the key sets.
\<close>

theorem gc_full_sweep:
  assumes "redis_ok s"
  shows "snd (gc s None None) = Inr () \<and>
    redis_ok (fst (gc s None None)) \<and>
    smembers_of (fst (gc s None None)) ''CacheKeys''
      = filter (\<lambda>k. s k \<noteq> None) (smembers_of s ''CacheKeys'') \<and>
    (\<forall>k. fst (gc s None None) (tbk k)
      = (if k \<in> set (smembers_of s ''CacheKeys'') \<and> s k = None then None else s (tbk k))) \<and>
    (\<forall>t. smembers_of (fst (gc s None None)) (kbt t)
      = filter (\<lambda>k. \<not> (k \<in> set (smembers_of s ''CacheKeys'') \<and> s k = None
                        \<and> t \<in> set (smembers_of s (tbk k))))
          (smembers_of s (kbt t))) \<and>
    smembers_of (fst (gc s None None)) ''Tags''
      = filter (\<lambda>t. s (kbt t) \<noteq> None) (smembers_of s ''Tags'') \<and>
    (\<forall>x. \<not> index_name x \<longrightarrow> fst (gc s None None) x = s x)"
proof -
  from gc_ok_ran [OF assms, of None None] obtain ks ts kc tc where
    kc: "gc_keys s ks = Inr kc" and tc: "gc_tags s ts = Inr tc" and
    g: "gc s None None = (fold step (kc @ tc) s, Inr ())" and
    ks: "ks = smembers_of s ''CacheKeys''" and ts: "ts = smembers_of s ''Tags''"
    by (metis (full_types))
  have 1: "snd (gc s None None) = Inr ()" using g by simp
  have 2: "redis_ok (fst (gc s None None))" by (rule redis_ok_gc [OF assms])
  have 3: "smembers_of (fst (gc s None None)) ''CacheKeys''
      = filter (\<lambda>k. s k \<noteq> None) (smembers_of s ''CacheKeys'')"
    using smembers_of_keep_entry [of "fold step (kc @ tc) s" _ _ s, OF sweep_CacheKeys [OF kc tc assms]] g
    by (auto simp: ks intro: filter_cong)
  have 4: "fst (gc s None None) (tbk k)
      = (if k \<in> set (smembers_of s ''CacheKeys'') \<and> s k = None then None else s (tbk k))" for k
    using sweep_tbk [OF kc tc assms, of k] g by (simp add: ks)
  have 5: "smembers_of (fst (gc s None None)) (kbt t)
      = filter (\<lambda>k. \<not> (k \<in> set (smembers_of s ''CacheKeys'') \<and> s k = None
                        \<and> t \<in> set (smembers_of s (tbk k))))
          (smembers_of s (kbt t))" for t
    using smembers_of_keep_entry [of "fold step (kc @ tc) s" _ _ s, OF sweep_kbt [OF kc tc assms, of t]] g by (simp add: ks)
  have 6: "smembers_of (fst (gc s None None)) ''Tags''
      = filter (\<lambda>t. s (kbt t) \<noteq> None) (smembers_of s ''Tags'')"
    using smembers_of_keep_entry [of "fold step (kc @ tc) s" _ _ s, OF sweep_Tags [OF kc tc assms]] g
    by (auto simp: ts intro: filter_cong)
  have 7: "\<not> index_name x \<Longrightarrow> fst (gc s None None) x = s x" for x
    using sweep_other [OF kc tc, of x] g by simp
  show ?thesis using 1 2 3 4 5 6 7 by blast
qed

theorem gc_full_sweep_witness:
  "redis_ok sweep_example \<and>
   snd (gc sweep_example None None) = Inr () \<and>
   smembers_of (fst (gc sweep_example None None)) ''CacheKeys'' = [''live''] \<and>
   fst (gc sweep_example None None) (tbk ''gone'') = None \<and>
   fst (gc sweep_example None None) (tbk ''live'') = Some (SetV [''a''], None) \<and>
   smembers_of (fst (gc sweep_example None None)) (kbt ''a'') = [''live''] \<and>
   smembers_of (fst (gc sweep_example None None)) ''Tags'' = [''a'', ''b''] \<and>
   \<not> index_name ''live'' \<and>
   fst (gc sweep_example None None) ''live'' = Some (Str ''v'', None)"
proof -
  note t = gc_full_sweep [OF redis_ok_sweep_example]
  have 1: "snd (gc sweep_example None None) = Inr ()" using t by blast
  have "smembers_of (fst (gc sweep_example None None)) ''CacheKeys''
      = filter (\<lambda>k. sweep_example k \<noteq> None) (smembers_of sweep_example ''CacheKeys'')"
    using t by blast
  then have 2: "smembers_of (fst (gc sweep_example None None)) ''CacheKeys'' = [''live'']"
    by (simp add: smembers_of_def sweep_example_def)
  have k: "fst (gc sweep_example None None) (tbk k)
      = (if k \<in> set (smembers_of sweep_example ''CacheKeys'') \<and> sweep_example k = None
         then None else sweep_example (tbk k))" for k
    using t by blast
  have 3: "fst (gc sweep_example None None) (tbk ''gone'') = None"
    using k [of "''gone''"] by (simp add: smembers_of_def sweep_example_def)
  have 4: "fst (gc sweep_example None None) (tbk ''live'') = Some (SetV [''a''], None)"
    using k [of "''live''"] by (simp add: smembers_of_def sweep_example_def tbk_def)
  have "smembers_of (fst (gc sweep_example None None)) (kbt ''a'')
      = filter (\<lambda>k. \<not> (k \<in> set (smembers_of sweep_example ''CacheKeys'') \<and> sweep_example k = None
                        \<and> ''a'' \<in> set (smembers_of sweep_example (tbk k))))
          (smembers_of sweep_example (kbt ''a''))"
    using t by blast
  then have 5: "smembers_of (fst (gc sweep_example None None)) (kbt ''a'') = [''live'']"
    by (simp add: smembers_of_def sweep_example_def tbk_def kbt_def)
  have "smembers_of (fst (gc sweep_example None None)) ''Tags''
      = filter (\<lambda>t. sweep_example (kbt t) \<noteq> None) (smembers_of sweep_example ''Tags'')"
    using t by blast
  then have 6: "smembers_of (fst (gc sweep_example None None)) ''Tags'' = [''a'', ''b'']"
    by (simp add: smembers_of_def sweep_example_def kbt_def)
  have 7: "\<not> index_name ''live''" by (simp add: index_name_def)
  have "fst (gc sweep_example None None) ''live'' = sweep_example ''live''"
    using t 7 by blast
  then have 8: "fst (gc sweep_example None None) ''live'' = Some (Str ''v'', None)"
    by (simp add: sweep_example_def)
  show ?thesis using redis_ok_sweep_example 1 2 3 4 5 6 7 8 by blast
qed

text \<open>
  C1 as stated fails for a tag whose key set becomes empty during the sweep: in the
  example, tag \<open>b\<close> has the expired key as its only member; after the sweep its key set is
  gone and \<open>b\<close> is still listed in \<^verbatim>\<open>Tags\<close>.
\<close>

theorem gc_full_sweep_counterexample:
  "smembers_of sweep_example (kbt ''b'') = [''gone''] \<and>
   sweep_example ''gone'' = None \<and>
   smembers_of (fst (gc sweep_example None None)) (kbt ''b'') = [] \<and>
   ''b'' \<in> set (smembers_of (fst (gc sweep_example None None)) ''Tags'')"
  by (simp add: smembers_of_def sweep_example_def gc_def r_smembers_def r_exists_def
        r_scard_def tbk_def kbt_def)

section \<open>A read that misses, with gc enabled\<close>

text \<open>
  C7, as the code has it. On a well-formed keyspace, when the primary entry of \<open>k\<close> is
  absent, \<open>get\<close> with gc enabled is \<open>gc\<close> with the one key \<open>k\<close> followed by the
  not-found signal. For the keys, the sweep is scoped to \<open>k\<close>: \<open>k\<close> leaves \<^verbatim>\<open>CacheKeys\<close>
  and the key sets of its tags, its tag set is deleted, and no other key, tag set or
  primary entry changes. For the tags it is not scoped: gc is called without a tags
  argument, so all of \<^verbatim>\<open>Tags\<close> is read and every tag whose key set is absent is removed
  from it, whether it has anything to do with \<open>k\<close> or not.
\<close>

theorem get_miss_reconciles:
  assumes "s k = None" "redis_ok s"
  shows "get s k True = (fst (gc s (Some [k]) None), Inr None) \<and>
    smembers_of (fst (get s k True)) ''CacheKeys'' = removeAll k (smembers_of s ''CacheKeys'') \<and>
    fst (get s k True) (tbk k) = None \<and>
    (\<forall>k'. k' \<noteq> k \<longrightarrow> fst (get s k True) (tbk k') = s (tbk k')) \<and>
    (\<forall>t. smembers_of (fst (get s k True)) (kbt t)
           = (if t \<in> set (smembers_of s (tbk k)) then removeAll k (smembers_of s (kbt t))
              else smembers_of s (kbt t))) \<and>
    smembers_of (fst (get s k True)) ''Tags''
      = filter (\<lambda>t. s (kbt t) \<noteq> None) (smembers_of s ''Tags'') \<and>
    (\<forall>x. \<not> index_name x \<longrightarrow> fst (get s k True) x = s x)"
proof (rule gc_ok_ran [OF assms(2), of "Some [k]" None])
  fix ks ts kc tc
  assume kc: "gc_keys s ks = Inr kc" and tc: "gc_tags s ts = Inr tc"
    and g: "gc s (Some [k]) None = (fold step (kc @ tc) s, Inr ())"
    and ks0: "ks = (if Some [k] = None \<or> Some [k] = Some [] then smembers_of s ''CacheKeys''
                    else the (Some [k]))"
    and ts0: "ts = (if None = None \<or> None = Some [] then smembers_of s ''Tags'' else the None)"
  have ks: "ks = [k]" using ks0 by simp
  have ts: "ts = smembers_of s ''Tags''" using ts0 by simp
  let ?s1 = "fold step (kc @ tc) s"
  have 0: "get s k True = (fst (gc s (Some [k]) None), Inr None)"
    using assms(1) g by (simp add: get_def r_get_def)
  then have f: "fst (get s k True) = ?s1" using g by simp
  have 1: "smembers_of ?s1 ''CacheKeys'' = removeAll k (smembers_of s ''CacheKeys'')"
    using smembers_of_keep_entry [of ?s1 _ _ s, OF sweep_CacheKeys [OF kc tc assms(2)]] assms(1)
    by (auto simp: ks removeAll_filter_not_eq intro: filter_cong)
  have 2: "?s1 (tbk k') = (if k' = k then None else s (tbk k'))" for k'
    using sweep_tbk [OF kc tc assms(2), of k'] assms(1) by (auto simp: ks)
  have 3: "smembers_of ?s1 (kbt t)
           = (if t \<in> set (smembers_of s (tbk k)) then removeAll k (smembers_of s (kbt t))
              else smembers_of s (kbt t))" for t
    using smembers_of_keep_entry [of ?s1 _ _ s, OF sweep_kbt [OF kc tc assms(2), of t]] assms(1)
    by (auto simp: ks removeAll_filter_not_eq intro: filter_cong)
  have 4: "smembers_of ?s1 ''Tags'' = filter (\<lambda>t. s (kbt t) \<noteq> None) (smembers_of s ''Tags'')"
    using smembers_of_keep_entry [of ?s1 _ _ s, OF sweep_Tags [OF kc tc assms(2)]]
    by (auto simp: ts intro: filter_cong)
  have 5: "\<not> index_name x \<Longrightarrow> ?s1 x = s x" for x
    using sweep_other [OF kc tc, of x] by simp
  show ?thesis unfolding f using 0 1 2 3 4 5 by simp
qed

theorem get_miss_reconciles_witness:
  "sweep_example ''gone'' = None \<and> redis_ok sweep_example \<and>
   snd (get sweep_example ''gone'' True) = Inr None \<and>
   smembers_of (fst (get sweep_example ''gone'' True)) ''CacheKeys'' = [''live''] \<and>
   fst (get sweep_example ''gone'' True) (tbk ''gone'') = None \<and>
   ''live'' \<noteq> ''gone'' \<and>
   fst (get sweep_example ''gone'' True) (tbk ''live'') = Some (SetV [''a''], None) \<and>
   smembers_of (fst (get sweep_example ''gone'' True)) (kbt ''a'') = [''live''] \<and>
   smembers_of (fst (get sweep_example ''gone'' True)) ''Tags'' = [''a'', ''b''] \<and>
   \<not> index_name ''live'' \<and>
   fst (get sweep_example ''gone'' True) ''live'' = Some (Str ''v'', None)"
proof -
  have a: "sweep_example ''gone'' = None" by (simp add: sweep_example_def)
  note t = get_miss_reconciles [OF a redis_ok_sweep_example]
  note t0 = t [THEN conjunct1]
  note t1 = t [THEN conjunct2, THEN conjunct1]
  note t2 = t [THEN conjunct2, THEN conjunct2, THEN conjunct1]
  note t3 = t [THEN conjunct2, THEN conjunct2, THEN conjunct2, THEN conjunct1, rule_format]
  note t4 = t [THEN conjunct2, THEN conjunct2, THEN conjunct2, THEN conjunct2, THEN conjunct1,
      rule_format]
  note t5 = t [THEN conjunct2, THEN conjunct2, THEN conjunct2, THEN conjunct2, THEN conjunct2,
      THEN conjunct1]
  note t6 = t [THEN conjunct2, THEN conjunct2, THEN conjunct2, THEN conjunct2, THEN conjunct2,
      THEN conjunct2, rule_format]
  let ?s1 = "fst (get sweep_example ''gone'' True)"
  have 1: "snd (get sweep_example ''gone'' True) = Inr None" by (simp add: t0)
  have 2: "smembers_of ?s1 ''CacheKeys'' = [''live'']"
    unfolding t1 by (simp add: smembers_of_def sweep_example_def)
  have 3: "?s1 (tbk ''gone'') = None" by (rule t2)
  have n: "''live'' \<noteq> ''gone''" by simp
  have 4: "?s1 (tbk ''live'') = Some (SetV [''a''], None)"
    unfolding t3 [OF n] by (simp add: sweep_example_def tbk_def)
  have 5: "smembers_of ?s1 (kbt ''a'') = [''live'']"
    unfolding t4 by (simp add: smembers_of_def sweep_example_def tbk_def kbt_def)
  have 6: "smembers_of ?s1 ''Tags'' = [''a'', ''b'']"
    unfolding t5 by (simp add: smembers_of_def sweep_example_def kbt_def)
  have 7: "\<not> index_name ''live''" by (simp add: index_name_def)
  have 8: "?s1 ''live'' = Some (Str ''v'', None)"
    unfolding t6 [OF 7] by (simp add: sweep_example_def)
  show ?thesis using a redis_ok_sweep_example 1 2 3 n 4 5 6 7 8 by blast
qed

text \<open>
  C7 as stated fails on tags unrelated to the key: after a key tagged \<open>t\<close> was set, has
  expired and was swept, \<open>t\<close> is still in \<^verbatim>\<open>Tags\<close>; a \<open>get\<close> of any other absent key
  \<open>k\<close>, which never had tag \<open>t\<close>, removes \<open>t\<close> from \<^verbatim>\<open>Tags\<close>.
\<close>

theorem get_miss_reconciles_counterexample:
  "fst (gc (r_delete (fst (set_cache Map.empty ''a'' ''v'' [''t''] None)) ''a'') None None)
     = dead_tag_example \<and>
   dead_tag_example ''k'' = None \<and>
   ''t'' \<notin> set (smembers_of dead_tag_example (tbk ''k'')) \<and>
   ''k'' \<notin> set (smembers_of dead_tag_example (kbt ''t'')) \<and>
   ''t'' \<in> set (smembers_of dead_tag_example ''Tags'') \<and>
   ''t'' \<notin> set (smembers_of (fst (get dead_tag_example ''k'' True)) ''Tags'')"
  by (auto simp add: smembers_of_def dead_tag_example_def get_def r_get_def gc_def set_cache_def
        r_delete_def r_smembers_def r_exists_def r_scard_def tbk_def kbt_def fun_eq_iff)

section \<open>Clearing a key twice\<close>

text \<open>
  C5, as the code has it. On a well-formed keyspace, \<open>clear k\<close> twice raises no error,
  whether \<open>k\<close> was there or not. The second call leaves every name other than \<^verbatim>\<open>Tags\<close> as
  the first call left it; from \<^verbatim>\<open>Tags\<close> it removes the tags whose key set is absent after
  the first call, which are the tags the first call emptied. From then on nothing moves:
  a third call changes nothing.
\<close>

theorem clear_twice:
  assumes "redis_ok s"
  shows "snd (clear s k) = Inr () \<and>
    snd (clear (fst (clear s k)) k) = Inr () \<and>
    (\<forall>x. x \<noteq> ''Tags'' \<longrightarrow> fst (clear (fst (clear s k)) k) x = fst (clear s k) x) \<and>
    smembers_of (fst (clear (fst (clear s k)) k)) ''Tags''
      = filter (\<lambda>t. fst (clear s k) (kbt t) \<noteq> None) (smembers_of (fst (clear s k)) ''Tags'') \<and>
    fst (clear (fst (clear (fst (clear s k)) k)) k) = fst (clear (fst (clear s k)) k)"
proof -
  let ?G = "\<lambda>s. fst (gc s (Some [k]) None)"
  let ?s0 = "r_delete s k"
  have ok0: "redis_ok ?s0" by (rule redis_ok_r_delete [OF assms])
  have a0: "?s0 k = None" by (simp add: r_delete_def)
  have c1: "fst (clear s k) = ?G ?s0" by (simp add: clear_def)
  note s1 = gc_one_settles [OF a0 ok0]
  have d1: "r_delete (?G ?s0) k = ?G ?s0"
    using s1(2) by (simp add: r_delete_def fun_upd_idem)
  have c2: "clear (?G ?s0) k = gc (?G ?s0) (Some [k]) None"
    by (simp add: clear_def d1)
  note s2 = gc_one_settles [OF s1(2) s1(1)]
  have d2: "r_delete (?G (?G ?s0)) k = ?G (?G ?s0)"
    using s2(2) by (simp add: r_delete_def fun_upd_idem)
  have c3: "clear (?G (?G ?s0)) k = gc (?G (?G ?s0)) (Some [k]) None"
    by (simp add: clear_def d2)
  have 1: "snd (clear s k) = Inr ()"
    using gc_one_absent(1) [OF a0 ok0] by (simp add: clear_def)
  have 2: "snd (clear (fst (clear s k)) k) = Inr ()"
    using gc_one_absent(1) [OF s1(2) s1(1)] by (simp add: c1 c2)
  have same12: "x \<noteq> ''Tags'' \<Longrightarrow> ?G (?G ?s0) x = ?G ?s0 x" for x
    by (rule gc_one_settled [OF s1(2) s1(1) s1(3) s1(4)])
  have tags12: "?G (?G ?s0) ''Tags'' = keep (\<lambda>t. ?G ?s0 (kbt t) \<noteq> None) (?G ?s0 ''Tags'')"
    by (rule gc_one_absent(5) [OF s1(2) s1(1)])
  have 4: "smembers_of (?G (?G ?s0)) ''Tags''
      = filter (\<lambda>t. ?G ?s0 (kbt t) \<noteq> None) (smembers_of (?G ?s0) ''Tags'')"
    by (rule smembers_of_keep_entry [of "?G (?G ?s0)" "''Tags''" _ "?G ?s0", OF tags12])
  have same23: "x \<noteq> ''Tags'' \<Longrightarrow> ?G (?G (?G ?s0)) x = ?G (?G ?s0) x" for x
    by (rule gc_one_settled [OF s2(2) s2(1) s2(3) s2(4)])
  have "?G (?G (?G ?s0)) ''Tags''
      = keep (\<lambda>t. ?G (?G ?s0) (kbt t) \<noteq> None) (?G (?G ?s0) ''Tags'')"
    by (rule gc_one_absent(5) [OF s2(2) s2(1)])
  also have "\<dots> = keep (\<lambda>t. ?G ?s0 (kbt t) \<noteq> None) (?G (?G ?s0) ''Tags'')"
    using same12 by simp
  also have "\<dots> = ?G (?G ?s0) ''Tags''"
    unfolding tags12 by (simp add: keep_keep)
  finally have tags23: "?G (?G (?G ?s0)) ''Tags'' = ?G (?G ?s0) ''Tags''" .
  have 5: "?G (?G (?G ?s0)) = ?G (?G ?s0)"
  proof
    fix x
    show "?G (?G (?G ?s0)) x = ?G (?G ?s0) x"
      using same23 [of x] tags23 by (cases "x = ''Tags''") simp_all
  qed
  show ?thesis
    unfolding c1 c2 c3 using 1 2 same12 4 5 by (simp add: c1 c2)
qed

theorem clear_twice_witness:
  "redis_ok one_key_example \<and>
   snd (clear one_key_example ''k'') = Inr () \<and>
   snd (clear (fst (clear one_key_example ''k'')) ''k'') = Inr () \<and>
   ''CacheKeys'' \<noteq> ''Tags'' \<and>
   fst (clear (fst (clear one_key_example ''k'')) ''k'') ''CacheKeys''
     = fst (clear one_key_example ''k'') ''CacheKeys'' \<and>
   smembers_of (fst (clear (fst (clear one_key_example ''k'')) ''k'')) ''Tags'' = [] \<and>
   fst (clear (fst (clear (fst (clear one_key_example ''k'')) ''k'')) ''k'')
     = fst (clear (fst (clear one_key_example ''k'')) ''k'')"
proof -
  note t = clear_twice [OF redis_ok_one_key_example, of "''k''"]
  note t1 = t [THEN conjunct1]
  note t2 = t [THEN conjunct2, THEN conjunct1]
  note t3 = t [THEN conjunct2, THEN conjunct2, THEN conjunct1, rule_format]
  note t4 = t [THEN conjunct2, THEN conjunct2, THEN conjunct2, THEN conjunct1]
  note t5 = t [THEN conjunct2, THEN conjunct2, THEN conjunct2, THEN conjunct2]
  have n: "''CacheKeys'' \<noteq> ''Tags''" by simp
  have 4: "smembers_of (fst (clear (fst (clear one_key_example ''k'')) ''k'')) ''Tags'' = []"
    unfolding t4 by (simp add: clear_once_example smembers_of_def kbt_def)
  show ?thesis using redis_ok_one_key_example t1 t2 n t3 [OF n] 4 t5 by blast
qed

text \<open>
  C5 as stated fails for a key that is the last one of a tag: after \<open>set\<close> of \<open>k\<close> with
  tag \<open>t\<close>, one \<open>clear k\<close> leaves \<open>t\<close> in \<^verbatim>\<open>Tags\<close> (its key set had one member when its
  cardinality was read), and the second \<open>clear k\<close> removes it.
\<close>

theorem clear_twice_counterexample:
  "fst (clear one_key_example ''k'') ''Tags'' = Some (SetV [''t''], None) \<and>
   fst (clear (fst (clear one_key_example ''k'')) ''k'') ''Tags'' = None \<and>
   fst (clear (fst (clear one_key_example ''k'')) ''k'') \<noteq> fst (clear one_key_example ''k'')"
proof -
  have 1: "fst (clear one_key_example ''k'') ''Tags'' = Some (SetV [''t''], None)"
    by (simp add: clear_once_example)
  have 2: "fst (clear (fst (clear one_key_example ''k'')) ''k'') ''Tags'' = None"
    by (simp add: clear_once_example clear_twice_example)
  from 1 2 show ?thesis by (metis option.distinct(1))
qed

section \<open>Full reset\<close>

text \<open>
  C6, as the code has it. After any sequence of \<open>set\<close> calls on an empty store whose keys
  are not index names (with any tags and any time to live), \<open>clear_all\<close> followed by
  \<open>gc\<close> raises no error and leaves nothing: \<^verbatim>\<open>CacheKeys\<close> and \<^verbatim>\<open>Tags\<close> are absent, every tag
  set and every key set is deleted, and no primary entry remains.
\<close>

theorem full_reset:
  assumes "\<forall>c \<in> set calls. \<not> index_name (fst c)"
  shows "let s1 = set_many Map.empty calls;
             s2 = fst (clear_all s1);
             s3 = fst (gc s2 None None)
         in snd (clear_all s1) = Inr () \<and> snd (gc s2 None None) = Inr () \<and>
            s3 ''CacheKeys'' = None \<and> s3 ''Tags'' = None \<and>
            (\<forall>k. s3 (tbk k) = None) \<and> (\<forall>t. s3 (kbt t) = None) \<and>
            (\<forall>x. s3 x = None)"
proof -
  have inv: "redis_ok (set_many Map.empty calls) \<and> covered (set_many Map.empty calls)"
    by (rule set_many_invariant [OF empty_invariant assms])
  then have c: "clear_all (set_many Map.empty calls) = (Map.empty, Inr ())"
    by (simp add: clear_all_covered)
  show ?thesis unfolding Let_def c by (simp add: gc_empty)
qed

theorem full_reset_witness:
  "\<not> index_name ''a'' \<and> \<not> index_name ''b'' \<and>
   set_many Map.empty [(''a'', ''1'', [''x'', ''y''], None), (''b'', ''2'', [''x''], Some (5::int))] ''b''
     = Some (Str ''2'', Some 5) \<and>
   snd (clear_all (set_many Map.empty
          [(''a'', ''1'', [''x'', ''y''], None), (''b'', ''2'', [''x''], Some (5::int))])) = Inr () \<and>
   fst (gc (fst (clear_all (set_many Map.empty
          [(''a'', ''1'', [''x'', ''y''], None), (''b'', ''2'', [''x''], Some (5::int))]))) None None) ''b''
     = None \<and>
   fst (gc (fst (clear_all (set_many Map.empty
          [(''a'', ''1'', [''x'', ''y''], None), (''b'', ''2'', [''x''], Some (5::int))]))) None None)
       ''CacheKeys'' = None"
proof -
  let ?calls = "[(''a'', ''1'', [''x'', ''y''], None), (''b'', ''2'', [''x''], Some (5::int))]"
  have h: "\<forall>c \<in> set ?calls. \<not> index_name (fst c)" by (simp add: index_name_def)
  note t = full_reset [OF h, unfolded Let_def]
  have 1: "set_many Map.empty ?calls ''b'' = Some (Str ''2'', Some 5)"
    unfolding set_many_example by simp
  have 2: "snd (clear_all (set_many Map.empty ?calls)) = Inr ()" by (rule t [THEN conjunct1])
  have 3: "fst (gc (fst (clear_all (set_many Map.empty ?calls))) None None) x = None" for x
    using t [THEN conjunct2, THEN conjunct2, THEN conjunct2, THEN conjunct2, THEN conjunct2,
        THEN conjunct2] by simp
  have n: "\<not> index_name ''a''" "\<not> index_name ''b''" by (simp_all add: index_name_def)
  show ?thesis using n 1 2 3 by blast
qed

text \<open>
  C6 as stated, for any sequence of \<open>set\<close> calls, fails when a value is cached under the
  name of a root set: \<open>set\<close> of the key \<^verbatim>\<open>Tags\<close> replaces the root set by a string, the
  \<^verbatim>\<open>smembers\<close> of \<^verbatim>\<open>Tags\<close> in \<open>clear_all\<close> and in \<open>gc\<close> then fails with WRONGTYPE before any
  command is queued for execution, and the entry stays.
\<close>

theorem full_reset_counterexample:
  "set_many Map.empty [(''Tags'', ''v'', [], None)]
     = Map.empty(''CacheKeys'' \<mapsto> (SetV [''Tags''], None), ''Tags'' \<mapsto> (Str ''v'', None)) \<and>
   clear_all (set_many Map.empty [(''Tags'', ''v'', [], None)])
     = (set_many Map.empty [(''Tags'', ''v'', [], None)], Inl WrongType) \<and>
   gc (fst (clear_all (set_many Map.empty [(''Tags'', ''v'', [], None)]))) None None
     = (set_many Map.empty [(''Tags'', ''v'', [], None)], Inl WrongType) \<and>
   fst (gc (fst (clear_all (set_many Map.empty [(''Tags'', ''v'', [], None)]))) None None) ''Tags''
     = Some (Str ''v'', None)"
  by (simp add: set_cache_def clear_all_def gc_def r_smembers_def r_exists_def tbk_def kbt_def)

section \<open>Clearing a tag that has no keys\<close>

text \<open>
  C10. On a well-formed keyspace, when the key set of tag \<open>t\<close> is empty, which for Redis
  is the same as absent, \<open>clear_tag t\<close> is \<open>gc\<close> without arguments: the empty set of
  deleted keys is falsy, and gc then reads all of \<^verbatim>\<open>CacheKeys\<close> and all of \<^verbatim>\<open>Tags\<close>. So the
  call is neither a no-op nor a sweep over no keys: it raises no error, removes every
  orphaned key of \<^verbatim>\<open>CacheKeys\<close> from \<^verbatim>\<open>CacheKeys\<close> and from the key sets of its tags and
  deletes its tag set, removes from \<^verbatim>\<open>Tags\<close> every tag whose key set is absent, and leaves
  every name that is not an index name as it is.
\<close>

theorem clear_tag_empty_full_sweep:
  assumes "redis_ok s" "get_keys s t = Inr []"
  shows "clear_tag s t = gc s None None \<and>
    snd (clear_tag s t) = Inr () \<and>
    smembers_of (fst (clear_tag s t)) ''CacheKeys''
      = filter (\<lambda>k. s k \<noteq> None) (smembers_of s ''CacheKeys'') \<and>
    (\<forall>k. fst (clear_tag s t) (tbk k)
      = (if k \<in> set (smembers_of s ''CacheKeys'') \<and> s k = None then None else s (tbk k))) \<and>
    (\<forall>u. smembers_of (fst (clear_tag s t)) (kbt u)
      = filter (\<lambda>k. \<not> (k \<in> set (smembers_of s ''CacheKeys'') \<and> s k = None
                        \<and> u \<in> set (smembers_of s (tbk k))))
          (smembers_of s (kbt u))) \<and>
    smembers_of (fst (clear_tag s t)) ''Tags''
      = filter (\<lambda>u. s (kbt u) \<noteq> None) (smembers_of s ''Tags'') \<and>
    (\<forall>x. \<not> index_name x \<longrightarrow> fst (clear_tag s t) x = s x)"
  unfolding clear_tag_empty [OF assms]
  using full_sweep_effect [OF assms(1)] gc_only_index_names [of _ s None None]
  by simp

theorem clear_tag_empty_full_sweep_witness:
  "redis_ok sweep_example \<and> get_keys sweep_example ''c'' = Inr [] \<and>
   ''c'' \<in> set (smembers_of sweep_example ''Tags'') \<and>
   snd (clear_tag sweep_example ''c'') = Inr () \<and>
   smembers_of (fst (clear_tag sweep_example ''c'')) ''CacheKeys'' = [''live''] \<and>
   fst (clear_tag sweep_example ''c'') (tbk ''gone'') = None \<and>
   fst (clear_tag sweep_example ''c'') (tbk ''live'') = Some (SetV [''a''], None) \<and>
   smembers_of (fst (clear_tag sweep_example ''c'')) (kbt ''a'') = [''live''] \<and>
   smembers_of (fst (clear_tag sweep_example ''c'')) (kbt ''b'') = [] \<and>
   smembers_of (fst (clear_tag sweep_example ''c'')) ''Tags'' = [''a'', ''b''] \<and>
   \<not> index_name ''live'' \<and>
   fst (clear_tag sweep_example ''c'') ''live'' = Some (Str ''v'', None)"
proof -
  have h: "get_keys sweep_example ''c'' = Inr []"
    by (simp add: get_keys_def r_smembers_def sweep_example_def kbt_def)
  have c: "''c'' \<in> set (smembers_of sweep_example ''Tags'')"
    by (simp add: smembers_of_def sweep_example_def)
  note t = clear_tag_empty_full_sweep [OF redis_ok_sweep_example h]
  note t1 = t [THEN conjunct2, THEN conjunct1]
  note t2 = t [THEN conjunct2, THEN conjunct2, THEN conjunct1]
  note t3 = t [THEN conjunct2, THEN conjunct2, THEN conjunct2, THEN conjunct1, rule_format]
  note t4 = t [THEN conjunct2, THEN conjunct2, THEN conjunct2, THEN conjunct2, THEN conjunct1,
      rule_format]
  note t5 = t [THEN conjunct2, THEN conjunct2, THEN conjunct2, THEN conjunct2, THEN conjunct2,
      THEN conjunct1]
  note t6 = t [THEN conjunct2, THEN conjunct2, THEN conjunct2, THEN conjunct2, THEN conjunct2,
      THEN conjunct2, rule_format]
  let ?s1 = "fst (clear_tag sweep_example ''c'')"
  have 2: "smembers_of ?s1 ''CacheKeys'' = [''live'']"
    unfolding t2 by (simp add: smembers_of_def sweep_example_def)
  have 3: "?s1 (tbk ''gone'') = None"
    unfolding t3 by (simp add: smembers_of_def sweep_example_def)
  have 4: "?s1 (tbk ''live'') = Some (SetV [''a''], None)"
    unfolding t3 by (simp add: smembers_of_def sweep_example_def tbk_def)
  have 5: "smembers_of ?s1 (kbt ''a'') = [''live'']"
    unfolding t4 by (simp add: smembers_of_def sweep_example_def tbk_def kbt_def)
  have 6: "smembers_of ?s1 (kbt ''b'') = []"
    unfolding t4 by (simp add: smembers_of_def sweep_example_def tbk_def kbt_def)
  have 7: "smembers_of ?s1 ''Tags'' = [''a'', ''b'']"
    unfolding t5 by (simp add: smembers_of_def sweep_example_def kbt_def)
  have n: "\<not> index_name ''live''" by (simp add: index_name_def)
  have 8: "?s1 ''live'' = Some (Str ''v'', None)"
    unfolding t6 [OF n] by (simp add: sweep_example_def)
  show ?thesis using redis_ok_sweep_example h c t1 2 3 4 5 6 7 n 8 by blast
qed

section \<open>Clearing a tag\<close>

text \<open>
  C4. Starting from any well-formed keyspace, after \<open>set\<close> of \<^verbatim>\<open>P1\<close> and of \<^verbatim>\<open>P2\<close>, both with
  tag \<^verbatim>\<open>Post\<close>, both keys are members of the tag. \<open>clear_tag\<close> of \<^verbatim>\<open>Post\<close> then raises no
  error; it deletes the primary entry of every member key of the tag and the key set of
  the tag, and reconciles the deleted keys: their tag sets are gone and they are no longer
  listed in \<^verbatim>\<open>CacheKeys\<close>. A name that is neither an index name nor a member of the tag is
  left as it was. After it, \<open>get\<close> of \<^verbatim>\<open>P1\<close> and then of \<^verbatim>\<open>P2\<close> return the not-found signal
  and \<open>get_keys\<close> of \<^verbatim>\<open>Post\<close> returns the empty set.
\<close>

theorem clear_tag_posts:
  assumes "redis_ok s"
  shows "let s2 = fst (set_cache (fst (set_cache s ''P1'' v [''Post''] None))
                   ''P2'' w [''Post''] None);
             s3 = fst (clear_tag s2 ''Post'');
             s4 = fst (get s3 ''P1'' True);
             s5 = fst (get s4 ''P2'' True)
         in {''P1'', ''P2''} \<subseteq> set (smembers_of s2 (kbt ''Post'')) \<and>
            snd (clear_tag s2 ''Post'') = Inr () \<and>
            (\<forall>k \<in> set (smembers_of s2 (kbt ''Post'')).
               s3 k = None \<and> s3 (tbk k) = None \<and> k \<notin> set (smembers_of s3 ''CacheKeys'')) \<and>
            s3 (kbt ''Post'') = None \<and>
            (\<forall>x. \<not> index_name x \<and> x \<notin> set (smembers_of s2 (kbt ''Post'')) \<longrightarrow> s3 x = s2 x) \<and>
            snd (get s3 ''P1'' True) = Inr None \<and>
            snd (get s4 ''P2'' True) = Inr None \<and>
            get_keys s5 ''Post'' = Inr []"
proof -
  let ?s1 = "fst (set_cache s ''P1'' v [''Post''] None)"
  let ?s2 = "fst (set_cache ?s1 ''P2'' w [''Post''] None)"
  let ?s3 = "fst (clear_tag ?s2 ''Post'')"
  let ?s4 = "fst (gc ?s3 (Some [''P1'']) None)"
  let ?s5 = "fst (gc ?s4 (Some [''P2'']) None)"
  have n1: "\<not> index_name ''P1''" and n2: "\<not> index_name ''P2''"
    by (simp_all add: index_name_def)
  have ok1: "redis_ok ?s1" by (rule set_cache_redis_ok [OF assms n1])
  have ok2: "redis_ok ?s2" by (rule set_cache_redis_ok [OF ok1 n2])
  have r0: "r_smembers s (kbt ''Post'') = Inr (smembers_of s (kbt ''Post''))"
    by (rule redis_ok_smembers [OF assms]) simp
  have r1: "r_smembers ?s1 (kbt ''Post'') = Inr (smembers_of ?s1 (kbt ''Post''))"
    by (rule redis_ok_smembers [OF ok1]) simp
  have k1: "''P1'' \<noteq> kbt ''Post''" and k2: "''P2'' \<noteq> kbt ''Post''"
    by (simp_all add: kbt_def)
  have "''P1'' \<in> set (smembers_of ?s1 (kbt ''Post''))"
    using set_cache_keys [OF r0 k1, where T = "[''Post'']" and v = v and ttl = None]
    by (auto simp: get_keys_def dest: r_smembers_Inr)
  then have m1: "''P1'' \<in> set (smembers_of ?s2 (kbt ''Post''))"
    by (rule set_cache_keys_kept [OF r1 k2])
  have m2: "''P2'' \<in> set (smembers_of ?s2 (kbt ''Post''))"
    using set_cache_keys [OF r1 k2, where T = "[''Post'']" and v = w and ttl = None]
    by (auto simp: get_keys_def dest: r_smembers_Inr)
  note e = clear_tag_effect [OF ok2, where t = "''Post''"]
  have ok3: "redis_ok ?s3" by (rule e(2))
  have a1: "?s3 ''P1'' = None" by (rule e(4) [OF m1])
  have a2: "?s3 ''P2'' = None" by (rule e(4) [OF m2])
  have g1: "get ?s3 ''P1'' True = (?s4, Inr None)" by (rule get_absent [OF ok3 a1])
  have ok4: "redis_ok ?s4" by (rule redis_ok_gc [OF ok3])
  have b2: "?s4 ''P2'' = None" by (rule gc_creates_nothing [of ?s3 "''P2''", OF a2])
  have g2: "get ?s4 ''P2'' True = (?s5, Inr None)" by (rule get_absent [OF ok4 b2])
  have "?s4 (kbt ''Post'') = None" by (rule gc_creates_nothing [of ?s3 "kbt ''Post''", OF e(3)])
  then have "?s5 (kbt ''Post'') = None" by (rule gc_creates_nothing [of ?s4 "kbt ''Post''"])
  then have gk: "get_keys ?s5 ''Post'' = Inr []" by (simp add: get_keys_def r_smembers_def)
  have members: "\<forall>k \<in> set (smembers_of ?s2 (kbt ''Post'')).
      ?s3 k = None \<and> ?s3 (tbk k) = None \<and> k \<notin> set (smembers_of ?s3 ''CacheKeys'')"
    using e(4,5,6) by blast
  have frame: "\<forall>x. \<not> index_name x \<and> x \<notin> set (smembers_of ?s2 (kbt ''Post'')) \<longrightarrow> ?s3 x = ?s2 x"
    using e(7) by blast
  show ?thesis unfolding Let_def g1 g2 fst_conv snd_conv
    using m1 m2 e(1) members e(3) frame gk by simp
qed

theorem clear_tag_posts_witness:
  "redis_ok sweep_example \<and>
   smembers_of posts_example (kbt ''Post'') = [''P1'', ''P2''] \<and>
   posts_example ''P1'' = Some (Str ''x'', None) \<and>
   snd (clear_tag posts_example ''Post'') = Inr () \<and>
   fst (clear_tag posts_example ''Post'') ''P1'' = None \<and>
   fst (clear_tag posts_example ''Post'') (tbk ''P1'') = None \<and>
   ''P1'' \<notin> set (smembers_of (fst (clear_tag posts_example ''Post'')) ''CacheKeys'') \<and>
   fst (clear_tag posts_example ''Post'') (kbt ''Post'') = None \<and>
   \<not> index_name ''live'' \<and>
   fst (clear_tag posts_example ''Post'') ''live'' = Some (Str ''v'', None) \<and>
   snd (get (fst (clear_tag posts_example ''Post'')) ''P1'' True) = Inr None \<and>
   snd (get (fst (get (fst (clear_tag posts_example ''Post'')) ''P1'' True)) ''P2'' True)
     = Inr None \<and>
   get_keys (fst (get (fst (get (fst (clear_tag posts_example ''Post'')) ''P1'' True))
                   ''P2'' True)) ''Post'' = Inr []"
proof -
  note t = clear_tag_posts [OF redis_ok_sweep_example, of "''x''" "''y''",
      unfolded Let_def, folded posts_example_def]
  note t2 = t [THEN conjunct2, THEN conjunct1]
  note t3 = t [THEN conjunct2, THEN conjunct2, THEN conjunct1, rule_format]
  note t4 = t [THEN conjunct2, THEN conjunct2, THEN conjunct2, THEN conjunct1]
  note t5 = t [THEN conjunct2, THEN conjunct2, THEN conjunct2, THEN conjunct2, THEN conjunct1,
      rule_format]
  note t6 = t [THEN conjunct2, THEN conjunct2, THEN conjunct2, THEN conjunct2, THEN conjunct2,
      THEN conjunct1]
  note t7 = t [THEN conjunct2, THEN conjunct2, THEN conjunct2, THEN conjunct2, THEN conjunct2,
      THEN conjunct2, THEN conjunct1]
  note t8 = t [THEN conjunct2, THEN conjunct2, THEN conjunct2, THEN conjunct2, THEN conjunct2,
      THEN conjunct2, THEN conjunct2]
  have m: "''P1'' \<in> set (smembers_of posts_example (kbt ''Post''))"
    by (simp add: posts_example_at)
  have n: "\<not> index_name ''live''" by (simp add: index_name_def)
  have l: "''live'' \<notin> set (smembers_of posts_example (kbt ''Post''))"
    by (simp add: posts_example_at)
  have 5: "fst (clear_tag posts_example ''Post'') ''live'' = Some (Str ''v'', None)"
    using t5 [of "''live''"] n l by (simp add: posts_example_at)
  show ?thesis
    using redis_ok_sweep_example posts_example_at(1,2) t2 t3 [OF m] t4 n 5 t6 t7 t8 by blast
qed

section \<open>Tags after set\<close>

text \<open>
  C2. When the tag set of \<open>k\<close> can be read, \<open>set\<close> of \<open>k\<close> with tag \<open>A\<close> followed by
  \<open>set\<close> of \<open>k\<close> with tag \<open>B\<close> leaves \<open>get_tags k\<close> equal to the tags \<open>k\<close> had before
  together with \<open>A\<close> and \<open>B\<close>: the tags are united, never replaced or removed. For a key
  without tags before, that is the set of \<open>A\<close> and \<open>B\<close>. \<open>get k\<close> returns the second
  value. The two calls are made without a time to live, or with a plain one.
\<close>

theorem set_twice_accumulates:
  assumes "r_smembers s (tbk k) = Inr old" "ttl_plain ttl1" "ttl_plain ttl2"
  shows "let s1 = fst (set_cache s k v1 [A] ttl1);
             s2 = fst (set_cache s1 k v2 [B] ttl2)
         in (\<exists>ts. get_tags s2 k = Inr ts \<and> set ts = set old \<union> {A, B}) \<and>
            (old = [] \<longrightarrow> (\<exists>ts. get_tags s2 k = Inr ts \<and> set ts = {A, B})) \<and>
            get s2 k g = (s2, Inr (Some v2))"
proof -
  let ?s1 = "fst (set_cache s k v1 [A] ttl1)"
  let ?s2 = "fst (set_cache ?s1 k v2 [B] ttl2)"
  from set_cache_tags [OF assms(1), of v1 "[A]" ttl1] obtain t1 where
    t1: "r_smembers ?s1 (tbk k) = Inr t1" "set t1 = set old \<union> {A}"
    by (auto simp: get_tags_def)
  from set_cache_tags [OF t1(1), of v2 "[B]" ttl2] obtain t2 where
    t2: "get_tags ?s2 k = Inr t2" "set t2 = set t1 \<union> {B}" by auto
  have 1: "\<exists>ts. get_tags ?s2 k = Inr ts \<and> set ts = set old \<union> {A, B}"
    using t1(2) t2 by auto
  then have 2: "old = [] \<longrightarrow> (\<exists>ts. get_tags ?s2 k = Inr ts \<and> set ts = {A, B})" by auto
  have 3: "get ?s2 k g = (?s2, Inr (Some v2))" by (rule get_after_set [OF assms(3)])
  show ?thesis unfolding Let_def using 1 2 3 by blast
qed

theorem set_twice_accumulates_witness:
  "r_smembers Map.empty (tbk ''k'') = Inr [] \<and> ttl_plain None \<and> ttl_plain (Some 60) \<and>
   get_tags (fst (set_cache (fst (set_cache Map.empty ''k'' ''v1'' [''a''] None))
                    ''k'' ''v2'' [''b''] (Some 60))) ''k'' = Inr [''a'', ''b''] \<and>
   (\<exists>ts. get_tags (fst (set_cache (fst (set_cache Map.empty ''k'' ''v1'' [''a''] None))
                    ''k'' ''v2'' [''b''] (Some 60))) ''k'' = Inr ts \<and> set ts = {''a'', ''b''}) \<and>
   snd (get (fst (set_cache (fst (set_cache Map.empty ''k'' ''v1'' [''a''] None))
                    ''k'' ''v2'' [''b''] (Some 60))) ''k'' True) = Inr (Some ''v2'')"
proof -
  have h: "r_smembers Map.empty (tbk ''k'') = Inr []" by (simp add: r_smembers_def)
  have p1: "ttl_plain None" and p2: "ttl_plain (Some 60)" by (simp_all add: ttl_plain_def)
  note t = set_twice_accumulates [OF h p1 p2, of "''v1''" "''a''" "''v2''" "''b''" True,
      unfolded Let_def]
  have 1: "get_tags (fst (set_cache (fst (set_cache Map.empty ''k'' ''v1'' [''a''] None))
                    ''k'' ''v2'' [''b''] (Some 60))) ''k'' = Inr [''a'', ''b'']"
    unfolding set_twice_example by (simp add: get_tags_def r_smembers_def tbk_def)
  have 2: "\<exists>ts. get_tags (fst (set_cache (fst (set_cache Map.empty ''k'' ''v1'' [''a''] None))
                    ''k'' ''v2'' [''b''] (Some 60))) ''k'' = Inr ts \<and> set ts = {''a'', ''b''}"
    using t [THEN conjunct2, THEN conjunct1] by simp
  have 3: "snd (get (fst (set_cache (fst (set_cache Map.empty ''k'' ''v1'' [''a''] None))
                    ''k'' ''v2'' [''b''] (Some 60))) ''k'' True) = Inr (Some ''v2'')"
    using t [THEN conjunct2, THEN conjunct2] by simp
  show ?thesis using h p1 p2 1 2 3 by blast
qed

text \<open>
  C3, as the code has it. On a well-formed keyspace, for a key that is not an index name
  and without a time to live or with a plain one, \<open>set\<close> of \<open>k\<close> with the tag list \<open>T\<close>
  raises no error; right after it, \<open>get_tags k\<close> returns the tags \<open>k\<close> already had
  together with the distinct tags of \<open>T\<close> (exactly the tags of \<open>T\<close> when \<open>k\<close> had no tag
  set), and \<open>k\<close> is a member of \<open>get_keys t\<close> for every \<open>t\<close> in \<open>T\<close>.
\<close>

theorem set_then_indexes:
  assumes "redis_ok s" "\<not> index_name k" "ttl_plain ttl"
  shows "snd (set_cache s k v T ttl) = Inr () \<and>
    (\<exists>ts. get_tags (fst (set_cache s k v T ttl)) k = Inr ts \<and>
          set ts = set (smembers_of s (tbk k)) \<union> set T) \<and>
    (s (tbk k) = None \<longrightarrow>
       (\<exists>ts. get_tags (fst (set_cache s k v T ttl)) k = Inr ts \<and> set ts = set T)) \<and>
    (\<forall>t \<in> set T. \<exists>ks. get_keys (fst (set_cache s k v T ttl)) t = Inr ks \<and> k \<in> set ks)"
proof -
  have 1: "snd (set_cache s k v T ttl) = Inr ()" by (rule set_cache_no_error [OF assms])
  have r: "r_smembers s (tbk k) = Inr (smembers_of s (tbk k))"
    by (rule redis_ok_smembers [OF assms(1)]) simp
  have 2: "\<exists>ts. get_tags (fst (set_cache s k v T ttl)) k = Inr ts \<and>
          set ts = set (smembers_of s (tbk k)) \<union> set T"
    by (rule set_cache_tags [OF r])
  have "s (tbk k) = None \<Longrightarrow> smembers_of s (tbk k) = []" by (simp add: smembers_of_def)
  with 2 have 3: "s (tbk k) = None \<longrightarrow>
       (\<exists>ts. get_tags (fst (set_cache s k v T ttl)) k = Inr ts \<and> set ts = set T)" by auto
  have 4: "\<exists>ks. get_keys (fst (set_cache s k v T ttl)) t = Inr ks \<and> k \<in> set ks"
    if t: "t \<in> set T" for t
  proof -
    have rk: "r_smembers s (kbt t) = Inr (smembers_of s (kbt t))"
      by (rule redis_ok_smembers [OF assms(1)]) simp
    have ne: "k \<noteq> kbt t" using assms(2) by auto
    show ?thesis by (rule set_cache_keys [OF rk ne t])
  qed
  show ?thesis using 1 2 3 4 by blast
qed

theorem set_then_indexes_witness:
  "redis_ok one_key_example \<and> \<not> index_name ''k'' \<and> ttl_plain (Some 60) \<and>
   snd (set_cache one_key_example ''k'' ''w'' [''a'', ''a'', ''b''] (Some 60)) = Inr () \<and>
   get_tags (fst (set_cache one_key_example ''k'' ''w'' [''a'', ''a'', ''b''] (Some 60))) ''k''
     = Inr [''t'', ''a'', ''b''] \<and>
   smembers_of one_key_example (tbk ''k'') = [''t''] \<and>
   ''b'' \<in> set [''a'', ''a'', ''b''] \<and>
   (\<exists>ks. get_keys (fst (set_cache one_key_example ''k'' ''w'' [''a'', ''a'', ''b''] (Some 60))) ''b''
           = Inr ks \<and> ''k'' \<in> set ks)"
proof -
  have n: "\<not> index_name ''k''" by (simp add: index_name_def)
  have p: "ttl_plain (Some 60)" by (simp add: ttl_plain_def)
  note t = set_then_indexes [OF redis_ok_one_key_example n p, of "''w''" "[''a'', ''a'', ''b'']"]
  have 1: "snd (set_cache one_key_example ''k'' ''w'' [''a'', ''a'', ''b''] (Some 60)) = Inr ()"
    by (rule t [THEN conjunct1])
  have 2: "get_tags (fst (set_cache one_key_example ''k'' ''w'' [''a'', ''a'', ''b''] (Some 60))) ''k''
     = Inr [''t'', ''a'', ''b'']"
    unfolding set_again_example by (simp add: get_tags_def r_smembers_def tbk_def)
  have 3: "smembers_of one_key_example (tbk ''k'') = [''t'']"
    by (simp add: one_key_example_eq smembers_of_def tbk_def)
  have b: "''b'' \<in> set [''a'', ''a'', ''b'']" by simp
  have 4: "\<exists>ks. get_keys (fst (set_cache one_key_example ''k'' ''w'' [''a'', ''a'', ''b''] (Some 60))) ''b''
           = Inr ks \<and> ''k'' \<in> set ks"
    using t [THEN conjunct2, THEN conjunct2, THEN conjunct2, rule_format, OF b] .
  show ?thesis using redis_ok_one_key_example n p 1 2 3 b 4 by blast
qed

text \<open>
  C3 as stated, for any store state, fails when the key already has tags: with \<open>k\<close>
  tagged \<open>t\<close>, \<open>set\<close> of \<open>k\<close> with the one tag \<open>a\<close> leaves \<open>get_tags k\<close> with both
  \<open>t\<close> and \<open>a\<close>.
\<close>

theorem set_then_indexes_counterexample:
  "get_tags one_key_example ''k'' = Inr [''t''] \<and>
   get_tags (fst (set_cache one_key_example ''k'' ''w'' [''a''] None)) ''k'' = Inr [''t'', ''a''] \<and>
   set [''t'', ''a''] \<noteq> set [''a'']"
  by (simp add: one_key_example_eq set_cache_def get_tags_def r_smembers_def tbk_def kbt_def)

end
